theory Spec2Isabelle
  imports Complex_Main
begin

section \<open>JavaScript values, strings and arrays\<close>

text \<open>
  The composable \<^verbatim>\<open>useExcelValidation\<close> works on rows of type
  \<^verbatim>\<open>Record<string, any>\<close>. A cell is one of the values the sheet decoder produces:
  \<^verbatim>\<open>undefined\<close>, \<^verbatim>\<open>null\<close>, a string, a number, a boolean, or some other
  object (a date, say). Numbers are modelled by the integers: the cells that hold whole
  numbers, whose conversion to a string is the plain decimal numeral; fractional and
  non-finite doubles are outside the model. An object is represented by the string that
  \<^verbatim>\<open>String(obj)\<close> yields, the only thing the validation code ever asks of it.
  Strings are lists of ASCII characters.
\<close>

datatype jsval =
    JSUndefined
  | JSNull
  | JSString string
  | JSNumber int
  | JSBoolean bool
  | JSObject string

text \<open>The \<^verbatim>\<open>typeof\<close> operator.\<close>

fun typeof :: "jsval \<Rightarrow> string" where
  "typeof JSUndefined = ''undefined''"
| "typeof JSNull = ''object''"
| "typeof (JSString s) = ''string''"
| "typeof (JSNumber n) = ''number''"
| "typeof (JSBoolean b) = ''boolean''"
| "typeof (JSObject s) = ''object''"

text \<open>\<^verbatim>\<open>v == null\<close>: true of \<^verbatim>\<open>null\<close> and \<^verbatim>\<open>undefined\<close> only.\<close>

fun isNullish :: "jsval \<Rightarrow> bool" where
  "isNullish JSUndefined = True"
| "isNullish JSNull = True"
| "isNullish (JSString s) = False"
| "isNullish (JSNumber n) = False"
| "isNullish (JSBoolean b) = False"
| "isNullish (JSObject s) = False"

text \<open>Decimal numerals, as \<^verbatim>\<open>String(n)\<close> and \<^verbatim>\<open>Array.prototype.join\<close> print them.\<close>

fun showNat :: "nat \<Rightarrow> string" where
  "showNat n =
     (if n < 10 then [''0123456789'' ! n]
      else showNat (n div 10) @ [''0123456789'' ! (n mod 10)])"

declare showNat.simps [simp del]

definition showInt :: "int \<Rightarrow> string" where
  "showInt i = (if i < 0 then CHR ''-'' # showNat (nat (- i)) else showNat (nat i))"

text \<open>\<^verbatim>\<open>String(v)\<close>.\<close>

fun toString :: "jsval \<Rightarrow> string" where
  "toString JSUndefined = ''undefined''"
| "toString JSNull = ''null''"
| "toString (JSString s) = s"
| "toString (JSNumber n) = showInt n"
| "toString (JSBoolean b) = (if b then ''true'' else ''false'')"
| "toString (JSObject s) = s"

text \<open>
  \<^verbatim>\<open>Array.prototype.join(sep)\<close>: the elements are converted to strings, \<^verbatim>\<open>null\<close> and
  \<^verbatim>\<open>undefined\<close> to the empty string, and separated by \<^verbatim>\<open>sep\<close>.
\<close>

fun joinStrings :: "string \<Rightarrow> string list \<Rightarrow> string" where
  "joinStrings sep [] = []"
| "joinStrings sep [x] = x"
| "joinStrings sep (x # y # ys) = x @ sep @ joinStrings sep (y # ys)"

definition arrayJoin :: "jsval list \<Rightarrow> string \<Rightarrow> string" where
  "arrayJoin xs sep = joinStrings sep (map (\<lambda>v. if isNullish v then [] else toString v) xs)"

text \<open>
  White space, as \<^verbatim>\<open>String.prototype.trim\<close> and the regular expression class
  \<^verbatim>\<open>\s\<close> see it on ASCII text: space, tab, line feed, vertical tab, form feed and
  carriage return.
\<close>

definition isWhiteSpace :: "char \<Rightarrow> bool" where
  "isWhiteSpace c =
     (c = CHR '' '' \<or> c = CHR 0x09 \<or> c = CHR 0x0A \<or> c = CHR 0x0B \<or> c = CHR 0x0C \<or> c = CHR 0x0D)"

definition trim :: "string \<Rightarrow> string" where
  "trim s = rev (dropWhile isWhiteSpace (rev (dropWhile isWhiteSpace s)))"

definition isDigit :: "char \<Rightarrow> bool" where
  "isDigit c = (c = CHR ''0'' \<or> c = CHR ''1'' \<or> c = CHR ''2'' \<or> c = CHR ''3'' \<or> c = CHR ''4''
     \<or> c = CHR ''5'' \<or> c = CHR ''6'' \<or> c = CHR ''7'' \<or> c = CHR ''8'' \<or> c = CHR ''9'')"

section \<open>Regular expressions\<close>

text \<open>
  The three built-in validators are \<^verbatim>\<open>RegExp.prototype.test\<close> calls on patterns
  anchored at both ends (\<^verbatim>\<open>^...$\<close>, no flags), so \<^verbatim>\<open>test\<close> decides whether the
  whole string belongs to the pattern's language. The language is decided by derivatives.
\<close>

datatype regex =
    Never
  | Eps
  | Sym "char \<Rightarrow> bool"
  | Alt regex regex
  | Seq regex regex
  | Star regex

fun nullable :: "regex \<Rightarrow> bool" where
  "nullable Never = False"
| "nullable Eps = True"
| "nullable (Sym p) = False"
| "nullable (Alt r s) = (nullable r \<or> nullable s)"
| "nullable (Seq r s) = (nullable r \<and> nullable s)"
| "nullable (Star r) = True"

fun deriv :: "char \<Rightarrow> regex \<Rightarrow> regex" where
  "deriv c Never = Never"
| "deriv c Eps = Never"
| "deriv c (Sym p) = (if p c then Eps else Never)"
| "deriv c (Alt r s) = Alt (deriv c r) (deriv c s)"
| "deriv c (Seq r s) =
     (if nullable r then Alt (Seq (deriv c r) s) (deriv c s) else Seq (deriv c r) s)"
| "deriv c (Star r) = Seq (deriv c r) (Star r)"

fun regexTest :: "regex \<Rightarrow> string \<Rightarrow> bool" where
  "regexTest r [] = nullable r"
| "regexTest r (c # cs) = regexTest (deriv c r) cs"

text \<open>The quantifiers \<^verbatim>\<open>+\<close>, \<^verbatim>\<open>?\<close> and \<^verbatim>\<open>{n}\<close>.\<close>

definition Plus :: "regex \<Rightarrow> regex" where
  "Plus r = Seq r (Star r)"

definition Opt :: "regex \<Rightarrow> regex" where
  "Opt r = Alt r Eps"

fun Times :: "nat \<Rightarrow> regex \<Rightarrow> regex" where
  "Times 0 r = Eps"
| "Times (Suc n) r = Seq r (Times n r)"

fun Lit :: "string \<Rightarrow> regex" where
  "Lit [] = Eps"
| "Lit (c # cs) = Seq (Sym (\<lambda>x. x = c)) (Lit cs)"

section \<open>The built-in validators\<close>

text \<open>\<^verbatim>\<open>/^[^\s@]+@[^\s@]+\.[^\s@]+$/\<close>\<close>

definition notSpaceOrAt :: "char \<Rightarrow> bool" where
  "notSpaceOrAt c = (\<not> isWhiteSpace c \<and> c \<noteq> CHR ''@'')"

definition emailPattern :: regex where
  "emailPattern =
     Seq (Plus (Sym notSpaceOrAt))
       (Seq (Lit ''@'')
         (Seq (Plus (Sym notSpaceOrAt))
           (Seq (Lit ''.'') (Plus (Sym notSpaceOrAt)))))"

definition isEmail :: "string \<Rightarrow> bool" where
  "isEmail v = regexTest emailPattern v"

text \<open>\<^verbatim>\<open>/^\d{7,9}$/.test(String(value))\<close>\<close>

definition employeeNumberPattern :: regex where
  "employeeNumberPattern =
     Seq (Times 7 (Sym isDigit)) (Seq (Opt (Sym isDigit)) (Opt (Sym isDigit)))"

definition isEmployeeNumber :: "jsval \<Rightarrow> bool" where
  "isEmployeeNumber v = regexTest employeeNumberPattern (toString v)"

text \<open>\<^verbatim>\<open>/^(?:\+91|0)?\s*\d{10}$/.test(String(value).replace(/\s+/g, ""))\<close>\<close>

definition mobileNumberPattern :: regex where
  "mobileNumberPattern =
     Seq (Opt (Alt (Lit ''+91'') (Lit ''0'')))
       (Seq (Star (Sym isWhiteSpace)) (Times 10 (Sym isDigit)))"

definition isMobileNumber :: "jsval \<Rightarrow> bool" where
  "isMobileNumber v =
     regexTest mobileNumberPattern (filter (\<lambda>c. \<not> isWhiteSpace c) (toString v))"

section \<open>The types of \<^verbatim>\<open>types/excel\<close>\<close>

text \<open>
  A row is a record with string keys; reading a key the row does not have yields
  \<^verbatim>\<open>undefined\<close>. A record has its own keys only: what JavaScript objects
  inherit from \<^verbatim>\<open>Object.prototype\<close> is not modelled.
\<close>

type_synonym js_record = "string \<rightharpoonup> jsval"

definition getProp :: "js_record \<Rightarrow> string \<Rightarrow> jsval" where
  "getProp rw k = (case rw k of None \<Rightarrow> JSUndefined | Some v \<Rightarrow> v)"

datatype ExcelCellDataType = TString | TNumber | TBoolean | TObject

fun typeName :: "ExcelCellDataType \<Rightarrow> string" where
  "typeName TString = ''string''"
| "typeName TNumber = ''number''"
| "typeName TBoolean = ''boolean''"
| "typeName TObject = ''object''"

datatype ExcelCellErrorType =
    REQUIRED
  | TYPE_MISMATCH
  | EMAIL_RULE
  | MOBILE_RULE
  | EMPLOYEE_RULE
  | ACCEPTED_VALUES
  | CUSTOM_VALIDATION
  | DUPLICATE

text \<open>
  \<^verbatim>\<open>ExcelCellValidationError\<close>. Every error the engine pushes carries a single row
  number; the row of a fragment returned by a custom validator is overwritten before the
  fragment is pushed.
\<close>

record ExcelCellValidationError =
  row :: nat
  column :: string
  message :: string
  errorType :: ExcelCellErrorType

text \<open>
  The result of a custom validator, \<^verbatim>\<open>ExcelCellValidationError | true\<close>, and the
  validator itself, \<^verbatim>\<open>(value: any, rowData?: Record<string, any>) => ...\<close>: the second
  parameter is optional, \<^verbatim>\<open>None\<close> when the caller passes no second argument.
\<close>

datatype custom_result = CustomTrue | CustomError ExcelCellValidationError

type_synonym custom_validator = "jsval \<Rightarrow> js_record option \<Rightarrow> custom_result"

record Validators =
  isEmail_enabled :: bool
  isMobileNumber_enabled :: bool
  isEmployeeNumber_enabled :: bool

text \<open>
  \<^verbatim>\<open>ExcelValidationSchemaOption\<close>. An absent \<^verbatim>\<open>required\<close> is falsy; the field
  \<^verbatim>\<open>type\<close> is one of four type names or \<^verbatim>\<open>undefined\<close>. The schema is the list
  \<^verbatim>\<open>Object.entries(validationSchema)\<close>, whose keys are pairwise distinct.
\<close>

record ExcelValidationSchemaOption =
  required :: bool
  cellType :: "ExcelCellDataType option"
  validators :: "Validators option"
  acceptedValues :: "jsval list option"
  customValidator :: "custom_validator option"

type_synonym ExcelValidationSchema = "(string \<times> ExcelValidationSchemaOption) list"

type_synonym ExcelUniqueConstraint = "string list list"

text \<open>
  What a call can throw: a plain \<^verbatim>\<open>Error\<close> with its message, the cancellation signal
  with the errors collected so far, and the \<^verbatim>\<open>TypeError\<close> that the JavaScript engine
  raises for a call of a method on a value that has no such method (its message is the
  engine's and is left out).
\<close>

datatype js_error =
    Error string
  | ValidationCancellationError "ExcelCellValidationError list"
  | TypeError

definition ROW_NUMBER_OFFSET :: nat where
  "ROW_NUMBER_OFFSET = 2"

section \<open>validateHeader\<close>

text \<open>
  The console output of \<^verbatim>\<open>validateHeader\<close> (the lists of missing, expected, found
  and additional columns) does not influence the value it returns and is left out.
\<close>

definition validateHeader :: "ExcelValidationSchema \<Rightarrow> string list \<Rightarrow> bool" where
  "validateHeader excelSchema excelHeader =
     (let expectedHeaders = map fst excelSchema;
          excelHeaders = map trim excelHeader;
          missingHeaders = filter (\<lambda>h. h \<notin> set excelHeaders) expectedHeaders
      in if length missingHeaders > 0 then False else True)"

section \<open>The shared cells: progress and cancellation\<close>

text \<open>
  \<^verbatim>\<open>validationProgress\<close> and \<^verbatim>\<open>isValidationCancelled\<close> are two reactive cells that
  outlive a single run and are shared with the embedding application.
\<close>

record shared_cells =
  validationProgress :: nat
  isValidationCancelled :: bool

definition cancelValidation :: "shared_cells \<Rightarrow> shared_cells" where
  "cancelValidation sh =
     (let sh1 = sh\<lparr>isValidationCancelled := True\<rparr> in sh1\<lparr>validationProgress := 0\<rparr>)"


subsection \<open>Double-precision arithmetic\<close>

text \<open>
  The numbers of the program are IEEE 754 binary64 values, and each arithmetic operation
  returns the exact result rounded to the nearest representable value, a tie going to the
  value whose significand is even. A finite binary64 value is a rational number, and
  \<open>binary64 x\<close> is the value that the rational \<open>x\<close> is rounded to: 53 significant bits
  at the binary exponent of \<open>x\<close>. The exponent is left unbounded, so that overflow to
  infinity and the subnormal numbers below \<open>2 powi (-1022)\<close> are not represented; neither
  occurs in the progress computation, whose operands are step counts.

  \<open>floorLog2 n\<close> is the position of the leading bit of \<open>n\<close>, and \<open>exponent x\<close> the integer
  \<open>e\<close> with \<open>2 powi e \<le> x < 2 powi (e + 1)\<close>, for a positive \<open>x\<close>.
\<close>

fun floorLog2 :: "nat \<Rightarrow> nat" where
  "floorLog2 n = (if n < 2 then 0 else Suc (floorLog2 (n div 2)))"

declare floorLog2.simps [simp del]

definition exponent :: "rat \<Rightarrow> int" where
  "exponent x =
     (if 1 \<le> x then int (floorLog2 (nat \<lfloor>x\<rfloor>))
      else - int (Suc (floorLog2 (nat \<lceil>1 / x\<rceil> - 1))))"

definition roundTiesToEven :: "rat \<Rightarrow> int" where
  "roundTiesToEven q =
     (let f = \<lfloor>q\<rfloor>; r = q - of_int f in
      if r < 1 / 2 then f else if 1 / 2 < r then f + 1 else if even f then f else f + 1)"

definition binary64 :: "rat \<Rightarrow> rat" where
  "binary64 x =
     (if x = 0 then 0
      else let u = 2 powi (exponent \<bar>x\<bar> - 52)
           in sgn x * of_int (roundTiesToEven (\<bar>x\<bar> / u)) * u)"

text \<open>
  \<^verbatim>\<open>Math.round((completed / total) * 100)\<close>: the quotient of the two counts, rounded to a
  double; its product with 100, rounded to a double; and \<^verbatim>\<open>Math.round\<close> of that double,
  which is exact and rounds a tie upwards, as \<^const>\<open>round\<close> does. The counts are
  integers below \<open>2 ^ 53\<close> and are doubles themselves. The engine calls the function
  only after a step has been completed, hence with a positive total (a zero total, for
  which the program would compute with \<^verbatim>\<open>NaN\<close> or \<^verbatim>\<open>Infinity\<close>, does not occur).
\<close>

definition getProgress :: "nat \<Rightarrow> nat \<Rightarrow> nat" where
  "getProgress completed totalSteps =
     nat (round (binary64 (binary64 (of_nat completed / of_nat totalSteps) * 100)))"

section \<open>The state of a run of validateData\<close>

text \<open>
  The local variables of \<^verbatim>\<open>validateData\<close> together with the shared cells.
  \<^verbatim>\<open>uniqueValues\<close> is an object whose values are \<^verbatim>\<open>Map\<close>s: both are kept as
  association lists in their iteration order. \<open>progressLog\<close> records the successive values
  the run writes to \<^verbatim>\<open>validationProgress\<close>: the reset at entry, then the value an
  observer finds at each yield point.
\<close>

type_synonym value_map = "(string \<times> nat list) list"

record vstate =
  cells :: shared_cells
  errors :: "ExcelCellValidationError list"
  processedData :: "js_record list"
  uniqueValues :: "(string \<times> value_map) list"
  completedSteps :: nat
  progressLog :: "nat list"

text \<open>
  \<^verbatim>\<open>updateProgress\<close>: count the step, publish the percentage, and yield
  (\<^verbatim>\<open>await new Promise(resolve => setTimeout(resolve, 0))\<close>). While the run is suspended
  the application may call \<^verbatim>\<open>cancelValidation\<close>; \<open>cancelAt k\<close> tells whether it does so
  during the yield that follows the \<open>k\<close>-th completed step. The application does not
  write the two cells in any other way, and custom validators have no side effects.
\<close>

definition updateProgress :: "(nat \<Rightarrow> bool) \<Rightarrow> nat \<Rightarrow> vstate \<Rightarrow> vstate" where
  "updateProgress cancelAt totalSteps st =
     (let completed = Suc (completedSteps st);
          progress = getProgress completed totalSteps;
          st1 = st\<lparr>completedSteps := completed,
                   cells := (cells st)\<lparr>validationProgress := progress\<rparr>,
                   progressLog := progressLog st @ [progress]\<rparr>
      in if cancelAt completed then st1\<lparr>cells := cancelValidation (cells st1)\<rparr> else st1)"

section \<open>Checking one cell\<close>

definition trimValue :: "jsval \<Rightarrow> jsval" where
  "trimValue rawValue = (case rawValue of JSString s \<Rightarrow> JSString (trim s) | _ \<Rightarrow> rawValue)"

text \<open>Step 3, the body of \<^verbatim>\<open>if (rules.validators && value != null)\<close>.\<close>

definition validatorErrors ::
  "nat \<Rightarrow> string \<Rightarrow> Validators \<Rightarrow> jsval \<Rightarrow> ExcelCellValidationError list" where
  "validatorErrors rowNumber col vs v =
     (if isEmail_enabled vs \<and> typeof v = ''string'' \<and> \<not> isEmail (toString v)
      then [\<lparr>row = rowNumber, column = col, message = ''Invalid email address'',
             errorType = EMAIL_RULE\<rparr>]
      else [])
     @ (if isMobileNumber_enabled vs \<and> (typeof v = ''string'' \<or> typeof v = ''number'')
           \<and> \<not> isMobileNumber v
        then [\<lparr>row = rowNumber, column = col, message = ''Invalid mobile number'',
               errorType = MOBILE_RULE\<rparr>]
        else [])
     @ (if isEmployeeNumber_enabled vs \<and> (typeof v = ''string'' \<or> typeof v = ''number'')
           \<and> \<not> isEmployeeNumber v
        then [\<lparr>row = rowNumber, column = col, message = ''Invalid employee number'',
               errorType = EMPLOYEE_RULE\<rparr>]
        else [])"

text \<open>
  The errors pushed for one column of one row, steps 1 to 5 of the column loop. The
  custom validator is called as \<^verbatim>\<open>rules.customValidator(value)\<close>, with one argument.
\<close>

definition cellErrors ::
  "nat \<Rightarrow> string \<Rightarrow> ExcelValidationSchemaOption \<Rightarrow> jsval \<Rightarrow> ExcelCellValidationError list" where
  "cellErrors rowNumber col rules v =
     (if required rules \<and> (v = JSNull \<or> v = JSString [] \<or> v = JSUndefined)
      then [\<lparr>row = rowNumber, column = col, message = ''This field is required'',
             errorType = REQUIRED\<rparr>]
      else if (case cellType rules of None \<Rightarrow> False
               | Some t \<Rightarrow> \<not> isNullish v \<and> typeof v \<noteq> typeName t)
      then [\<lparr>row = rowNumber, column = col,
             message = ''Expected type '' @ (case cellType rules of None \<Rightarrow> [] | Some t \<Rightarrow> typeName t)
                       @ '', got '' @ typeof v,
             errorType = TYPE_MISMATCH\<rparr>]
      else
        (case validators rules of None \<Rightarrow> []
         | Some vs \<Rightarrow> if isNullish v then [] else validatorErrors rowNumber col vs v)
        @ (case acceptedValues rules of None \<Rightarrow> []
           | Some avs \<Rightarrow>
               if \<not> isNullish v \<and> v \<notin> set avs
               then [\<lparr>row = rowNumber, column = col,
                      message = ''Value must be one of: '' @ arrayJoin avs '', '',
                      errorType = ACCEPTED_VALUES\<rparr>]
               else [])
        @ (case customValidator rules of None \<Rightarrow> []
           | Some cv \<Rightarrow>
               if isNullish v then []
               else (case cv v None of
                       CustomTrue \<Rightarrow> []
                     | CustomError customResult \<Rightarrow>
                         [customResult\<lparr>row := rowNumber, column := col\<rparr>])))"

text \<open>
  The loop \<^verbatim>\<open>for (const [column, rules] of validationSchemaEntries)\<close> over one row: it
  fills \<^verbatim>\<open>processedRow\<close> and appends to \<^verbatim>\<open>errors\<close>.
\<close>

fun columnLoop ::
  "nat \<Rightarrow> js_record \<Rightarrow> ExcelValidationSchema \<Rightarrow> js_record \<times> ExcelCellValidationError list
     \<Rightarrow> js_record \<times> ExcelCellValidationError list" where
  "columnLoop rowIndex rw [] acc = acc"
| "columnLoop rowIndex rw ((col, rules) # rest) (processedRow, errs) =
     (let rawValue = getProp rw col;
          v = trimValue rawValue;
          rowNumber = rowIndex + ROW_NUMBER_OFFSET
      in columnLoop rowIndex rw rest
           (processedRow(col \<mapsto> v), errs @ cellErrors rowNumber col rules v))"

definition validateRow :: "ExcelValidationSchema \<Rightarrow> nat \<Rightarrow> js_record \<Rightarrow> vstate \<Rightarrow> vstate" where
  "validateRow schema rowIndex rw st =
     (case columnLoop rowIndex rw schema (Map.empty, errors st) of
        (processedRow, errs) \<Rightarrow>
          st\<lparr>errors := errs, processedData := processedData st @ [processedRow]\<rparr>)"

section \<open>Tracking values for the uniqueness constraints\<close>

text \<open>\<^verbatim>\<open>cols.join("-").trim()\<close>, the key of a constraint group.\<close>

definition constraintKey :: "string list \<Rightarrow> string" where
  "constraintKey cols = trim (joinStrings ''-'' cols)"

text \<open>
  The composite value of a row for a group:
  \<^verbatim>\<open>cols.map(col => typeof val === "string" ? val.trim() : val ?? "NULL").join("-")\<close>.
\<close>

definition compositeValue :: "js_record \<Rightarrow> string list \<Rightarrow> string" where
  "compositeValue rw cols =
     arrayJoin
       (map (\<lambda>col. let val = getProp rw col
                   in if typeof val = ''string'' then trimValue val
                      else if isNullish val then JSString ''NULL'' else val) cols)
       ''-''"

text \<open>\<^verbatim>\<open>Map.prototype.set\<close>: an existing key keeps its place, a new key goes last.\<close>

fun mapSet :: "'k \<Rightarrow> 'v \<Rightarrow> ('k \<times> 'v) list \<Rightarrow> ('k \<times> 'v) list" where
  "mapSet k v [] = [(k, v)]"
| "mapSet k v ((k', v') # rest) =
     (if k' = k then (k, v) # rest else (k', v') # mapSet k v rest)"

text \<open>
  Property order of an ordinary object: the keys that are array indices (canonical
  numerals below \<open>2^32 - 1\<close>) come first in ascending order, the other keys follow in the
  order of their creation. Assigning to an existing key leaves the order alone.
\<close>

definition parseNat :: "string \<Rightarrow> nat" where
  "parseNat s = foldl (\<lambda>n c. 10 * n + (of_char c - 48)) 0 s"

definition isArrayIndex :: "string \<Rightarrow> bool" where
  "isArrayIndex s =
     (s \<noteq> [] \<and> list_all isDigit s \<and> (s = ''0'' \<or> hd s \<noteq> CHR ''0'') \<and> parseNat s < 4294967295)"

fun insertIndexKey :: "string \<Rightarrow> 'v \<Rightarrow> (string \<times> 'v) list \<Rightarrow> (string \<times> 'v) list" where
  "insertIndexKey k v [] = [(k, v)]"
| "insertIndexKey k v ((k', v') # rest) =
     (if isArrayIndex k' \<and> parseNat k' < parseNat k then (k', v') # insertIndexKey k v rest
      else (k, v) # (k', v') # rest)"

definition objSet :: "string \<Rightarrow> 'v \<Rightarrow> (string \<times> 'v) list \<Rightarrow> (string \<times> 'v) list" where
  "objSet k v obj =
     (if k \<in> set (map fst obj) then mapSet k v obj
      else if isArrayIndex k then insertIndexKey k v obj
      else obj @ [(k, v)])"

text \<open>
  \<^verbatim>\<open>unique.forEach(cols => { uniqueValues[cols.join("-").trim()] = new Map(); })\<close>
\<close>

definition initUniqueValues :: "ExcelUniqueConstraint \<Rightarrow> (string \<times> value_map) list" where
  "initUniqueValues unique = foldl (\<lambda>uv cols. objSet (constraintKey cols) [] uv) [] unique"

text \<open>
  Step 6 for one group: the \<^verbatim>\<open>Map\<close> stored under the group's key is mutated in place,
  the current row number being appended to the rows of the composite value.
\<close>

definition recordValue :: "nat \<Rightarrow> string \<Rightarrow> value_map \<Rightarrow> value_map" where
  "recordValue rowNumber vals valueMap =
     (case map_of valueMap vals of
        Some existingRows \<Rightarrow> mapSet vals (existingRows @ [rowNumber]) valueMap
      | None \<Rightarrow> mapSet vals [rowNumber] valueMap)"

definition mutateAt :: "string \<Rightarrow> ('v \<Rightarrow> 'v) \<Rightarrow> (string \<times> 'v) list \<Rightarrow> (string \<times> 'v) list" where
  "mutateAt k f obj = map (\<lambda>(k', m). if k' = k then (k', f m) else (k', m)) obj"

definition trackUnique ::
  "ExcelUniqueConstraint \<Rightarrow> nat \<Rightarrow> js_record \<Rightarrow> (string \<times> value_map) list
     \<Rightarrow> (string \<times> value_map) list" where
  "trackUnique unique rowIndex rw uv =
     foldl (\<lambda>uv' cols.
              mutateAt (constraintKey cols)
                (recordValue (rowIndex + ROW_NUMBER_OFFSET) (compositeValue rw cols)) uv')
       uv unique"

text \<open>Step 7 for one entry of \<^verbatim>\<open>uniqueValues\<close>: the body of \<^verbatim>\<open>valueMap.forEach\<close>.\<close>

definition duplicateMessage :: "string \<Rightarrow> nat list \<Rightarrow> string" where
  "duplicateMessage v rws =
     ''Duplicate value found: '' @ v @ '' in rows '' @ joinStrings '', '' (map showNat rws)"

definition duplicateErrors :: "string \<Rightarrow> value_map \<Rightarrow> ExcelCellValidationError list" where
  "duplicateErrors k valueMap =
     concat (map (\<lambda>(v, rws).
                    if length rws > 1
                    then map (\<lambda>r. \<lparr>row = r, column = k, message = duplicateMessage v rws,
                                   errorType = DUPLICATE\<rparr>) rws
                    else [])
               valueMap)"

section \<open>validateData\<close>

text \<open>
  The row loop. Each iteration first reads the cancellation flag; a set flag throws
  \<^verbatim>\<open>ValidationCancellationError(errors)\<close>.
\<close>

fun rowLoop ::
  "(nat \<Rightarrow> bool) \<Rightarrow> nat \<Rightarrow> ExcelValidationSchema \<Rightarrow> ExcelUniqueConstraint \<Rightarrow> nat
     \<Rightarrow> js_record list \<Rightarrow> vstate \<Rightarrow> js_error + vstate" where
  "rowLoop cancelAt totalSteps schema unique rowIndex [] st = Inr st"
| "rowLoop cancelAt totalSteps schema unique rowIndex (rw # rest) st =
     (if isValidationCancelled (cells st) then Inl (ValidationCancellationError (errors st))
      else
        let st1 = validateRow schema rowIndex rw st;
            st2 = st1\<lparr>uniqueValues := trackUnique unique rowIndex rw (uniqueValues st1)\<rparr>;
            st3 = updateProgress cancelAt totalSteps st2
        in rowLoop cancelAt totalSteps schema unique (Suc rowIndex) rest st3)"

text \<open>
  The loop \<^verbatim>\<open>for (const [key, valueMap] of Object.entries(uniqueValues))\<close>, with the
  same cancellation check at the start of each iteration.
\<close>

fun uniqueLoop ::
  "(nat \<Rightarrow> bool) \<Rightarrow> nat \<Rightarrow> (string \<times> value_map) list \<Rightarrow> vstate \<Rightarrow> js_error + vstate" where
  "uniqueLoop cancelAt totalSteps [] st = Inr st"
| "uniqueLoop cancelAt totalSteps ((k, valueMap) # rest) st =
     (if isValidationCancelled (cells st) then Inl (ValidationCancellationError (errors st))
      else
        let st1 = st\<lparr>errors := errors st @ duplicateErrors k valueMap\<rparr>;
            st2 = updateProgress cancelAt totalSteps st1
        in uniqueLoop cancelAt totalSteps rest st2)"

text \<open>
  \<^verbatim>\<open>validateData(data, validationSchema, unique)\<close>, run with the shared cells as they
  are at the call (\<open>sh\<close>). It returns the final state, whose fields \<open>errors\<close> and
  \<open>processedData\<close> are the object that the source returns.
\<close>

definition validateData ::
  "shared_cells \<Rightarrow> (nat \<Rightarrow> bool) \<Rightarrow> js_record list \<Rightarrow> ExcelValidationSchema
     \<Rightarrow> ExcelUniqueConstraint \<Rightarrow> js_error + vstate" where
  "validateData sh cancelAt data schema unique =
     (let sh1 = sh\<lparr>isValidationCancelled := False\<rparr>;
          sh2 = sh1\<lparr>validationProgress := 0\<rparr>;
          totalSteps = length data + length unique;
          st0 = \<lparr>cells = sh2, errors = [], processedData = [],
                 uniqueValues = initUniqueValues unique, completedSteps = 0,
                 progressLog = [validationProgress sh2]\<rparr>
      in case rowLoop cancelAt totalSteps schema unique 0 data st0 of
           Inl e \<Rightarrow> Inl e
         | Inr st1 \<Rightarrow> uniqueLoop cancelAt totalSteps (uniqueValues st1) st1)"

text \<open>
  The two cells are shared with the application, and what a run leaves in them is part of
  its effect, also when it throws. The following functions are the two loops and
  \<^verbatim>\<open>validateData\<close> once more, read for the cells at the exit.
\<close>

fun rowLoopCells ::
  "(nat \<Rightarrow> bool) \<Rightarrow> nat \<Rightarrow> ExcelValidationSchema \<Rightarrow> ExcelUniqueConstraint \<Rightarrow> nat
     \<Rightarrow> js_record list \<Rightarrow> vstate \<Rightarrow> shared_cells" where
  "rowLoopCells cancelAt totalSteps schema unique rowIndex [] st = cells st"
| "rowLoopCells cancelAt totalSteps schema unique rowIndex (rw # rest) st =
     (if isValidationCancelled (cells st) then cells st
      else
        let st1 = validateRow schema rowIndex rw st;
            st2 = st1\<lparr>uniqueValues := trackUnique unique rowIndex rw (uniqueValues st1)\<rparr>;
            st3 = updateProgress cancelAt totalSteps st2
        in rowLoopCells cancelAt totalSteps schema unique (Suc rowIndex) rest st3)"

fun uniqueLoopCells ::
  "(nat \<Rightarrow> bool) \<Rightarrow> nat \<Rightarrow> (string \<times> value_map) list \<Rightarrow> vstate \<Rightarrow> shared_cells" where
  "uniqueLoopCells cancelAt totalSteps [] st = cells st"
| "uniqueLoopCells cancelAt totalSteps ((k, valueMap) # rest) st =
     (if isValidationCancelled (cells st) then cells st
      else
        let st1 = st\<lparr>errors := errors st @ duplicateErrors k valueMap\<rparr>;
            st2 = updateProgress cancelAt totalSteps st1
        in uniqueLoopCells cancelAt totalSteps rest st2)"

definition validateDataCells ::
  "shared_cells \<Rightarrow> (nat \<Rightarrow> bool) \<Rightarrow> js_record list \<Rightarrow> ExcelValidationSchema
     \<Rightarrow> ExcelUniqueConstraint \<Rightarrow> shared_cells" where
  "validateDataCells sh cancelAt data schema unique =
     (let sh1 = sh\<lparr>isValidationCancelled := False\<rparr>;
          sh2 = sh1\<lparr>validationProgress := 0\<rparr>;
          totalSteps = length data + length unique;
          st0 = \<lparr>cells = sh2, errors = [], processedData = [],
                 uniqueValues = initUniqueValues unique, completedSteps = 0,
                 progressLog = [validationProgress sh2]\<rparr>
      in case rowLoop cancelAt totalSteps schema unique 0 data st0 of
           Inl e \<Rightarrow> rowLoopCells cancelAt totalSteps schema unique 0 data st0
         | Inr st1 \<Rightarrow> uniqueLoopCells cancelAt totalSteps (uniqueValues st1) st1)"

section \<open>validateExcelFile\<close>




section \<open>Closed forms of a run\<close>

text \<open>
  The functions of this section are not part of the source. They describe what a run
  computes, so that the theorems below can say it: the cleaned copy of a row, the errors
  of a row, the content of \<^verbatim>\<open>uniqueValues\<close> once every row has been seen, and the
  errors that each step of a run appends.
\<close>

definition cleanRow :: "ExcelValidationSchema \<Rightarrow> js_record \<Rightarrow> js_record" where
  "cleanRow schema rw =
     (\<lambda>c. if c \<in> set (map fst schema) then Some (trimValue (getProp rw c)) else None)"

definition rowErrors ::
  "ExcelValidationSchema \<Rightarrow> nat \<Rightarrow> js_record \<Rightarrow> ExcelCellValidationError list" where
  "rowErrors schema rowIndex rw =
     concat (map (\<lambda>(col, rules).
                    cellErrors (rowIndex + ROW_NUMBER_OFFSET) col rules (trimValue (getProp rw col)))
               schema)"

definition rowPhaseErrors ::
  "ExcelValidationSchema \<Rightarrow> js_record list \<Rightarrow> ExcelCellValidationError list" where
  "rowPhaseErrors schema rows =
     concat (map (\<lambda>p. rowErrors schema (fst p) (snd p)) (enumerate 0 rows))"

definition finalUniqueValues ::
  "ExcelUniqueConstraint \<Rightarrow> js_record list \<Rightarrow> (string \<times> value_map) list" where
  "finalUniqueValues unique rows =
     foldl (\<lambda>uv p. trackUnique unique (fst p) (snd p) uv) (initUniqueValues unique)
       (enumerate 0 rows)"

definition duplicatePhaseErrors ::
  "ExcelUniqueConstraint \<Rightarrow> js_record list \<Rightarrow> ExcelCellValidationError list" where
  "duplicatePhaseErrors unique rows =
     concat (map (\<lambda>p. duplicateErrors (fst p) (snd p)) (finalUniqueValues unique rows))"

text \<open>The errors appended by each step of a run, one list per row, then one per entry.\<close>

definition stepErrors ::
  "ExcelValidationSchema \<Rightarrow> ExcelUniqueConstraint \<Rightarrow> js_record list
     \<Rightarrow> ExcelCellValidationError list list" where
  "stepErrors schema unique rows =
     map (\<lambda>p. rowErrors schema (fst p) (snd p)) (enumerate 0 rows)
     @ map (\<lambda>p. duplicateErrors (fst p) (snd p)) (finalUniqueValues unique rows)"

text \<open>
  Both loops of \<^verbatim>\<open>validateData\<close> have one shape: check the flag, run a body, update the
  progress. \<open>stepLoop\<close> is that shape for a list of bodies; the two loops are instances.
\<close>

fun stepLoop ::
  "(nat \<Rightarrow> bool) \<Rightarrow> nat \<Rightarrow> (vstate \<Rightarrow> vstate) list \<Rightarrow> vstate \<Rightarrow> js_error + vstate" where
  "stepLoop cancelAt T [] st = Inr st"
| "stepLoop cancelAt T (g # gs) st =
     (if isValidationCancelled (cells st) then Inl (ValidationCancellationError (errors st))
      else stepLoop cancelAt T gs (updateProgress cancelAt T (g st)))"

definition rowBody ::
  "ExcelValidationSchema \<Rightarrow> ExcelUniqueConstraint \<Rightarrow> nat \<times> js_record \<Rightarrow> vstate \<Rightarrow> vstate" where
  "rowBody schema unique p st =
     (validateRow schema (fst p) (snd p) st)
       \<lparr>uniqueValues :=
          trackUnique unique (fst p) (snd p) (uniqueValues (validateRow schema (fst p) (snd p) st))\<rparr>"

definition dupBody :: "string \<times> value_map \<Rightarrow> vstate \<Rightarrow> vstate" where
  "dupBody p st = st\<lparr>errors := errors st @ duplicateErrors (fst p) (snd p)\<rparr>"

definition allSteps ::
  "ExcelValidationSchema \<Rightarrow> ExcelUniqueConstraint \<Rightarrow> js_record list \<Rightarrow> (vstate \<Rightarrow> vstate) list" where
  "allSteps schema unique rows =
     map (rowBody schema unique) (enumerate 0 rows) @ map dupBody (finalUniqueValues unique rows)"

definition appends :: "(vstate \<Rightarrow> vstate) \<Rightarrow> ExcelCellValidationError list \<Rightarrow> bool" where
  "appends g es =
     (\<forall>st. errors (g st) = errors st @ es \<and> cells (g st) = cells st
        \<and> completedSteps (g st) = completedSteps st \<and> progressLog (g st) = progressLog st)"

definition initialState :: "ExcelUniqueConstraint \<Rightarrow> vstate" where
  "initialState unique =
     \<lparr>cells = \<lparr>validationProgress = 0, isValidationCancelled = False\<rparr>, errors = [],
      processedData = [], uniqueValues = initUniqueValues unique, completedSteps = 0,
      progressLog = [0]\<rparr>"

section \<open>Example inputs\<close>

definition idleCells :: shared_cells where
  "idleCells = \<lparr>validationProgress = 0, isValidationCancelled = False\<rparr>"

definition plainRules :: ExcelValidationSchemaOption where
  "plainRules = \<lparr>required = False, cellType = None, validators = None, acceptedValues = None,
                  customValidator = None\<rparr>"

definition requiredString :: ExcelValidationSchemaOption where
  "requiredString = \<lparr>required = True, cellType = Some TString, validators = None,
                      acceptedValues = None, customValidator = None\<rparr>"

definition emailRules :: ExcelValidationSchemaOption where
  "emailRules =
     \<lparr>required = True, cellType = Some TString,
      validators = Some \<lparr>isEmail_enabled = True, isMobileNumber_enabled = False,
                         isEmployeeNumber_enabled = False\<rparr>,
      acceptedValues = None, customValidator = None\<rparr>"



text \<open>
  A custom validator that uses its second parameter: the cell must equal the cell
  \<open>confirm\<close> of the same row. Without row data it cannot accept the value.
\<close>

definition valuesDiffer :: ExcelCellValidationError where
  "valuesDiffer = \<lparr>row = 0, column = ''password'', message = ''Values differ'',
                    errorType = CUSTOM_VALIDATION\<rparr>"

definition matchesConfirm :: custom_validator where
  "matchesConfirm v rowData =
     (case rowData of
        None \<Rightarrow> CustomError valuesDiffer
      | Some rw \<Rightarrow> if getProp rw ''confirm'' = v then CustomTrue else CustomError valuesDiffer)"

definition confirmRules :: ExcelValidationSchemaOption where
  "confirmRules = \<lparr>required = False, cellType = Some TString, validators = None,
                    acceptedValues = None, customValidator = Some matchesConfirm\<rparr>"

text \<open>A boolean column with every built-in validator switched on.\<close>

definition allValidators :: Validators where
  "allValidators = \<lparr>isEmail_enabled = True, isMobileNumber_enabled = True,
                     isEmployeeNumber_enabled = True\<rparr>"

definition flagRules :: ExcelValidationSchemaOption where
  "flagRules = \<lparr>required = False, cellType = Some TBoolean, validators = Some allValidators,
                 acceptedValues = None, customValidator = None\<rparr>"

text \<open>The same column with a custom validator whose fragment is typed EMAIL_RULE.\<close>

definition notAnEmail :: ExcelCellValidationError where
  "notAnEmail = \<lparr>row = 0, column = [], message = ''Not an email'', errorType = EMAIL_RULE\<rparr>"

definition flagRulesCustom :: ExcelValidationSchemaOption where
  "flagRulesCustom = \<lparr>required = False, cellType = Some TBoolean, validators = Some allValidators,
                       acceptedValues = None,
                       customValidator = Some (\<lambda>v rowData. CustomError notAnEmail)\<rparr>"

text \<open>A column whose custom validator rejects every value with a fragment typed DUPLICATE.\<close>

definition alreadyListed :: ExcelCellValidationError where
  "alreadyListed = \<lparr>row = 0, column = [], message = ''Already listed'', errorType = DUPLICATE\<rparr>"

definition listedRules :: ExcelValidationSchemaOption where
  "listedRules = \<lparr>required = False, cellType = None, validators = None, acceptedValues = None,
                   customValidator = Some (\<lambda>v rowData. CustomError alreadyListed)\<rparr>"

section \<open>Duplicates, in the words of the specification\<close>

text \<open>
  The values of a list in the order of their first occurrence, the row numbers (index plus
  2) of the rows that hold a given composite value for a group, and the errors that the
  specification's resolution rule prescribes for one group: for each composite key, in
  first-seen order, whose row list is longer than 1, one DUPLICATE error per listed row,
  all with the same message and with the group's key as column.
\<close>

definition firstSeen :: "'a list \<Rightarrow> 'a list" where
  "firstSeen xs = rev (remdups (rev xs))"

definition rowNumbersOf :: "string list \<Rightarrow> js_record list \<Rightarrow> string \<Rightarrow> nat list" where
  "rowNumbersOf cols rows v =
     map (\<lambda>p. fst p + ROW_NUMBER_OFFSET)
       (filter (\<lambda>p. compositeValue (snd p) cols = v) (enumerate 0 rows))"

definition groupRows :: "string list \<Rightarrow> js_record list \<Rightarrow> value_map" where
  "groupRows cols rows =
     map (\<lambda>v. (v, rowNumbersOf cols rows v))
       (firstSeen (map (\<lambda>rw. compositeValue rw cols) rows))"

definition groupDuplicates :: "string list \<Rightarrow> js_record list \<Rightarrow> ExcelCellValidationError list" where
  "groupDuplicates cols rows =
     concat (map (\<lambda>v. if length (rowNumbersOf cols rows v) > 1
                      then map (\<lambda>r. \<lparr>row = r, column = constraintKey cols,
                                     message = ''Duplicate value found: '' @ v @ '' in rows ''
                                       @ joinStrings '', '' (map showNat (rowNumbersOf cols rows v)),
                                     errorType = DUPLICATE\<rparr>)
                             (rowNumbersOf cols rows v)
                      else [])
               (firstSeen (map (\<lambda>rw. compositeValue rw cols) rows)))"

section \<open>Example rows for the uniqueness constraints\<close>

definition idRows :: "js_record list" where
  "idRows = [[''id'' \<mapsto> JSString ''1''], [''id'' \<mapsto> JSString ''2''], [''id'' \<mapsto> JSString ''1'']]"

text \<open>Two rows that differ in every column, one of which is named \<open>emp-id\<close>.\<close>

definition staffRows :: "js_record list" where
  "staffRows =
     [[''emp'' \<mapsto> JSString ''7'', ''id'' \<mapsto> JSString ''1'', ''emp-id'' \<mapsto> JSString ''9''],
      [''emp'' \<mapsto> JSString ''8'', ''id'' \<mapsto> JSString ''2'', ''emp-id'' \<mapsto> JSString ''7-1'']]"

section \<open>Basic facts about the loops\<close>

declare rowLoop.simps(2) [simp del]
declare uniqueLoop.simps(2) [simp del]

lemma validateHeader_iff: "validateHeader S H \<longleftrightarrow> fst ` set S \<subseteq> trim ` set H"
  by (auto simp: validateHeader_def Let_def filter_empty_conv)

lemma columnLoop_eq:
  "columnLoop i rw schema (pr, errs) =
     ((\<lambda>c. if c \<in> fst ` set schema then Some (trimValue (getProp rw c)) else pr c),
      errs @ rowErrors schema i rw)"
proof (induction schema arbitrary: pr errs)
  case Nil
  then show ?case by (simp add: rowErrors_def)
next
  case (Cons a schema)
  obtain col rules where a: "a = (col, rules)" by (cases a)
  show ?case
    unfolding a by (auto simp: Cons.IH rowErrors_def Let_def)
qed

lemma validateRow_eq:
  "validateRow schema i rw st =
     st\<lparr>errors := errors st @ rowErrors schema i rw,
        processedData := processedData st @ [cleanRow schema rw]\<rparr>"
  by (simp add: validateRow_def columnLoop_eq cleanRow_def)

lemma updateProgress_fields [simp]:
  "errors (updateProgress cancelAt T st) = errors st"
  "processedData (updateProgress cancelAt T st) = processedData st"
  "uniqueValues (updateProgress cancelAt T st) = uniqueValues st"
  "completedSteps (updateProgress cancelAt T st) = Suc (completedSteps st)"
  "progressLog (updateProgress cancelAt T st) =
     progressLog st @ [getProgress (Suc (completedSteps st)) T]"
  "isValidationCancelled (cells (updateProgress cancelAt T st)) =
     (isValidationCancelled (cells st) \<or> cancelAt (Suc (completedSteps st)))"
  by (simp_all add: updateProgress_def Let_def cancelValidation_def)

lemma rowLoop_Cons:
  "rowLoop cancelAt T schema unique i (rw # rest) st =
     (if isValidationCancelled (cells st) then Inl (ValidationCancellationError (errors st))
      else rowLoop cancelAt T schema unique (Suc i) rest
             (updateProgress cancelAt T (rowBody schema unique (i, rw) st)))"
  by (simp add: rowBody_def Let_def rowLoop.simps(2))

lemma rowBody_fields [simp]:
  "errors (rowBody schema unique p st) = errors st @ rowErrors schema (fst p) (snd p)"
  "processedData (rowBody schema unique p st) = processedData st @ [cleanRow schema (snd p)]"
  "uniqueValues (rowBody schema unique p st) = trackUnique unique (fst p) (snd p) (uniqueValues st)"
  "completedSteps (rowBody schema unique p st) = completedSteps st"
  "progressLog (rowBody schema unique p st) = progressLog st"
  "cells (rowBody schema unique p st) = cells st"
  by (simp_all add: rowBody_def validateRow_eq)

lemma rowLoop_Inr:
  "rowLoop cancelAt T schema unique i rows st = Inr st' \<Longrightarrow>
     processedData st' = processedData st @ map (cleanRow schema) rows \<and>
     uniqueValues st' =
       foldl (\<lambda>uv p. trackUnique unique (fst p) (snd p) uv) (uniqueValues st) (enumerate i rows)"
proof (induction rows arbitrary: i st)
  case Nil
  then show ?case by simp
next
  case (Cons rw rest)
  from Cons.prems
  have r: "rowLoop cancelAt T schema unique (Suc i) rest
             (updateProgress cancelAt T (rowBody schema unique (i, rw) st)) = Inr st'"
    by (auto simp: rowLoop_Cons split: if_splits)
  from Cons.IH[OF r] show ?case by simp
qed

lemma uniqueLoop_Inr:
  "uniqueLoop cancelAt T entries st = Inr st' \<Longrightarrow>
     processedData st' = processedData st \<and> uniqueValues st' = uniqueValues st"
  by (induction entries arbitrary: st) (auto simp: uniqueLoop.simps(2) Let_def split: if_splits)

lemma rowLoop_stepLoop:
  "rowLoop cancelAt T schema unique i rows st =
     stepLoop cancelAt T (map (rowBody schema unique) (enumerate i rows)) st"
  by (induction rows arbitrary: i st) (simp_all add: rowLoop_Cons)

lemma uniqueLoop_stepLoop:
  "uniqueLoop cancelAt T entries st = stepLoop cancelAt T (map dupBody entries) st"
  by (induction entries arbitrary: st) (auto simp: uniqueLoop.simps(2) dupBody_def Let_def)

lemma stepLoop_append:
  "stepLoop cancelAt T (gs @ hs) st =
     (case stepLoop cancelAt T gs st of Inl e \<Rightarrow> Inl e | Inr st1 \<Rightarrow> stepLoop cancelAt T hs st1)"
  by (induction gs arbitrary: st) simp_all

lemma appends_rowBody: "appends (rowBody schema unique p) (rowErrors schema (fst p) (snd p))"
  by (simp add: appends_def)

lemma appends_dupBody: "appends (dupBody p) (duplicateErrors (fst p) (snd p))"
  by (simp add: appends_def dupBody_def)

lemma appends_step:
  assumes "appends g es"
  shows "errors (g st) = errors st @ es"
    and "completedSteps (g st) = completedSteps st"
    and "progressLog (g st) = progressLog st"
    and "cells (g st) = cells st"
  using assms by (simp_all add: appends_def)

lemma stepLoop_Inr:
  "list_all2 appends gs ess \<Longrightarrow> stepLoop cancelAt T gs st = Inr st' \<Longrightarrow>
     errors st' = errors st @ concat ess \<and>
     completedSteps st' = completedSteps st + length gs \<and>
     progressLog st' =
       progressLog st @ map (\<lambda>k. getProgress (Suc (completedSteps st + k)) T) [0..<length gs]"
proof (induction gs ess arbitrary: st rule: list_all2_induct)
  case Nil
  then show ?case by simp
next
  case (Cons g gs es ess)
  from Cons.prems have r: "stepLoop cancelAt T gs (updateProgress cancelAt T (g st)) = Inr st'"
    by (auto split: if_splits)
  from Cons.IH[OF r] show ?case
    by (simp add: appends_step[OF Cons.hyps(1)] map_upt_Suc del: upt_Suc)
qed


lemma stepLoop_returns:
  "list_all2 appends gs ess \<Longrightarrow> \<not> isValidationCancelled (cells st) \<Longrightarrow>
   (\<And>k. completedSteps st < k \<Longrightarrow> k < completedSteps st + length gs \<Longrightarrow> \<not> cancelAt k) \<Longrightarrow>
   \<exists>st'. stepLoop cancelAt T gs st = Inr st'"
proof (induction gs ess arbitrary: st rule: list_all2_induct)
  case Nil
  then show ?case by simp
next
  case (Cons g gs es ess)
  show ?case
  proof (cases gs)
    case Nil
    then show ?thesis using Cons.prems(1) by simp
  next
    case (Cons h hs)
    have "\<not> cancelAt (Suc (completedSteps st))"
      using Cons.prems(2)[of "Suc (completedSteps st)"] Cons by simp
    then have nc: "\<not> isValidationCancelled (cells (updateProgress cancelAt T (g st)))"
      using Cons.prems(1) by (simp add: appends_step[OF Cons.hyps(1)])
    have "\<exists>st'. stepLoop cancelAt T gs (updateProgress cancelAt T (g st)) = Inr st'"
      by (rule Cons.IH[OF nc]) (use Cons.prems(2) in \<open>simp add: appends_step[OF Cons.hyps(1)]\<close>)
    then show ?thesis using Cons.prems(1) by simp
  qed
qed

lemma stepLoop_cancel:
  "list_all2 appends gs ess \<Longrightarrow> \<not> isValidationCancelled (cells st) \<Longrightarrow>
   (\<And>k. completedSteps st < k \<Longrightarrow> k < completedSteps st + j \<Longrightarrow> \<not> cancelAt k) \<Longrightarrow>
   cancelAt (completedSteps st + j) \<Longrightarrow> 0 < j \<Longrightarrow> j < length gs \<Longrightarrow>
   stepLoop cancelAt T gs st = Inl (ValidationCancellationError (errors st @ concat (take j ess)))"
proof (induction gs ess arbitrary: st j rule: list_all2_induct)
  case Nil
  then show ?case by simp
next
  case (Cons g gs es ess)
  let ?st1 = "updateProgress cancelAt T (g st)"
  show ?case
  proof (cases "j = 1")
    case True
    with Cons.prems have c: "isValidationCancelled (cells ?st1)"
      by (simp add: appends_step[OF Cons.hyps(1)])
    from Cons.prems True obtain h hs where gs: "gs = h # hs" by (cases gs) auto
    show ?thesis using Cons.prems(1) c True
      by (simp add: gs appends_step[OF Cons.hyps(1)])
  next
    case False
    with Cons.prems obtain j' where j': "j = Suc j'" "0 < j'" by (cases j) auto
    have "\<not> cancelAt (Suc (completedSteps st))"
      using Cons.prems(2)[of "Suc (completedSteps st)"] j' by simp
    then have nc: "\<not> isValidationCancelled (cells ?st1)"
      using Cons.prems(1) by (simp add: appends_step[OF Cons.hyps(1)])
    have "stepLoop cancelAt T gs ?st1 =
            Inl (ValidationCancellationError (errors ?st1 @ concat (take j' ess)))"
    proof (rule Cons.IH[OF nc])
      fix k assume "completedSteps ?st1 < k" "k < completedSteps ?st1 + j'"
      then show "\<not> cancelAt k"
        using Cons.prems(2)[of k] j' by (simp add: appends_step[OF Cons.hyps(1)])
    next
      show "cancelAt (completedSteps ?st1 + j')"
        using Cons.prems(3) j' by (simp add: appends_step[OF Cons.hyps(1)])
    next
      show "0 < j'" by (rule j')
    next
      show "j' < length gs" using Cons.prems(5) j' by simp
    qed
    then show ?thesis using Cons.prems(1) j'
      by (simp add: appends_step[OF Cons.hyps(1)])
  qed
qed

section \<open>A run of validateData as one loop\<close>

lemma initial_state_eq:
  "\<lparr>cells = sh\<lparr>isValidationCancelled := False, validationProgress := 0\<rparr>, errors = [],
    processedData = [], uniqueValues = initUniqueValues unique, completedSteps = 0,
    progressLog = [validationProgress (sh\<lparr>isValidationCancelled := False, validationProgress := 0\<rparr>)]\<rparr>
   = initialState unique"
  by (simp add: initialState_def)

lemma validateData_stepLoop:
  "validateData sh cancelAt rows schema unique =
     stepLoop cancelAt (length rows + length unique) (allSteps schema unique rows)
       (initialState unique)"
proof -
  let ?T = "length rows + length unique"
  have uv: "uniqueValues st1 = finalUniqueValues unique rows"
    if "rowLoop cancelAt ?T schema unique 0 rows (initialState unique) = Inr st1" for st1
    using rowLoop_Inr[OF that] by (simp add: finalUniqueValues_def initialState_def)
  show ?thesis
    unfolding validateData_def Let_def initial_state_eq allSteps_def stepLoop_append
    using uv by (auto simp: rowLoop_stepLoop uniqueLoop_stepLoop split: sum.splits)
qed

lemma allSteps_appends:
  "list_all2 appends (allSteps schema unique rows) (stepErrors schema unique rows)"
  unfolding allSteps_def stepErrors_def
  by (intro list_all2_appendI)
    (simp_all add: list_all2_map1 list_all2_map2 list_all2_same appends_rowBody appends_dupBody)

lemma length_allSteps:
  "length (allSteps schema unique rows) = length rows + length (finalUniqueValues unique rows)"
  by (simp add: allSteps_def)

lemma validateData_loops:
  assumes "validateData sh cancelAt rows schema unique = Inr st"
  shows "\<exists>st1. rowLoop cancelAt (length rows + length unique) schema unique 0 rows
                  (initialState unique) = Inr st1
           \<and> uniqueLoop cancelAt (length rows + length unique) (uniqueValues st1) st1 = Inr st"
  using assms unfolding validateData_def Let_def initial_state_eq by (auto split: sum.splits)

lemma concat_stepErrors:
  "concat (stepErrors schema unique rows) =
     rowPhaseErrors schema rows @ duplicatePhaseErrors unique rows"
  by (simp add: stepErrors_def rowPhaseErrors_def duplicatePhaseErrors_def)

lemma validateData_Inr:
  assumes "validateData sh cancelAt rows schema unique = Inr st"
  shows "errors st = rowPhaseErrors schema rows @ duplicatePhaseErrors unique rows"
    and "processedData st = map (cleanRow schema) rows"
    and "uniqueValues st = finalUniqueValues unique rows"
    and "completedSteps st = length rows + length (finalUniqueValues unique rows)"
    and "progressLog st = 0 # map (\<lambda>k. getProgress (Suc k) (length rows + length unique))
                               [0..<length rows + length (finalUniqueValues unique rows)]"
proof -
  from assms
  have s: "stepLoop cancelAt (length rows + length unique) (allSteps schema unique rows)
             (initialState unique) = Inr st"
    by (simp add: validateData_stepLoop)
  from stepLoop_Inr[OF allSteps_appends s]
  show "errors st = rowPhaseErrors schema rows @ duplicatePhaseErrors unique rows"
    and "completedSteps st = length rows + length (finalUniqueValues unique rows)"
    and "progressLog st = 0 # map (\<lambda>k. getProgress (Suc k) (length rows + length unique))
                               [0..<length rows + length (finalUniqueValues unique rows)]"
    by (simp_all add: initialState_def length_allSteps concat_stepErrors)
  from validateData_loops[OF assms] obtain st1 where
    r: "rowLoop cancelAt (length rows + length unique) schema unique 0 rows
          (initialState unique) = Inr st1"
    and u: "uniqueLoop cancelAt (length rows + length unique) (uniqueValues st1) st1 = Inr st"
    by blast
  from rowLoop_Inr[OF r] uniqueLoop_Inr[OF u]
  show "processedData st = map (cleanRow schema) rows"
    and "uniqueValues st = finalUniqueValues unique rows"
    by (simp_all add: initialState_def finalUniqueValues_def)
qed

lemma validateData_returns:
  assumes "\<And>k. 0 < k \<Longrightarrow> k < length rows + length (finalUniqueValues unique rows) \<Longrightarrow> \<not> cancelAt k"
  shows "\<exists>st. validateData sh cancelAt rows schema unique = Inr st"
  unfolding validateData_stepLoop
  by (rule stepLoop_returns[OF allSteps_appends])
    (use assms in \<open>simp_all add: initialState_def length_allSteps\<close>)

lemma validateData_cancel:
  assumes "\<And>k. 0 < k \<Longrightarrow> k < j \<Longrightarrow> \<not> cancelAt k" "cancelAt j" "0 < j"
    "j < length rows + length (finalUniqueValues unique rows)"
  shows "validateData sh cancelAt rows schema unique =
           Inl (ValidationCancellationError (concat (take j (stepErrors schema unique rows))))"
  unfolding validateData_stepLoop
  using stepLoop_cancel[OF allSteps_appends, of "initialState unique" j cancelAt schema unique rows
      "length rows + length unique"] assms
  by (simp add: initialState_def length_allSteps)


section \<open>The errors of one cell within a run\<close>

lemma filter_concat_map_key:
  assumes "\<And>x e. x \<in> set xs \<Longrightarrow> e \<in> set (f x) \<Longrightarrow> P e = Q x"
  shows "filter P (concat (map f xs)) = concat (map f (filter Q xs))"
  using assms
proof (induction xs)
  case Nil
  then show ?case by simp
next
  case (Cons x xs)
  have "filter P (f x) = (if Q x then f x else [])"
    using Cons.prems[of x] by (auto simp: filter_id_conv filter_empty_conv)
  moreover have "filter P (concat (map f xs)) = concat (map f (filter Q xs))"
    by (rule Cons.IH) (use Cons.prems in auto)
  ultimately show ?case by simp
qed

lemma filter_enumerate_below: "i < n \<Longrightarrow> filter (\<lambda>p. fst p = i) (enumerate n xs) = []"
  by (auto simp: filter_empty_conv in_set_enumerate_eq)

lemma filter_enumerate_index:
  "n \<le> i \<Longrightarrow> i < n + length xs \<Longrightarrow>
     filter (\<lambda>p. fst p = i) (enumerate n xs) = [(i, xs ! (i - n))]"
proof (induction xs arbitrary: n)
  case Nil
  then show ?case by simp
next
  case (Cons x xs)
  show ?case
  proof (cases "i = n")
    case True
    then show ?thesis by (simp add: filter_enumerate_below)
  next
    case False
    with Cons.prems have "Suc n \<le> i" "i < Suc n + length xs" by simp_all
    from Cons.IH[OF this] False Cons.prems show ?thesis by (simp add: Suc_diff_le)
  qed
qed

lemma filter_schema_key:
  "distinct (map fst schema) \<Longrightarrow> (c, rules) \<in> set schema \<Longrightarrow>
     filter (\<lambda>p. fst p = c) schema = [(c, rules)]"
proof (induction schema)
  case Nil
  then show ?case by simp
next
  case (Cons a schema)
  show ?case
  proof (cases "fst a = c")
    case True
    with Cons.prems have "a = (c, rules)" by (auto simp: image_iff)
    moreover have "filter (\<lambda>p. fst p = c) schema = []"
      using Cons.prems True by (auto simp: filter_empty_conv image_iff)
    ultimately show ?thesis by simp
  next
    case False
    with Cons show ?thesis by auto
  qed
qed

lemma cellErrors_row_column:
  "e \<in> set (cellErrors r c rules v) \<Longrightarrow> row e = r \<and> column e = c"
  by (auto simp: cellErrors_def validatorErrors_def
      split: if_splits option.splits custom_result.splits)

lemma rowErrors_row: "e \<in> set (rowErrors schema i rw) \<Longrightarrow> row e = i + 2"
  by (auto simp: rowErrors_def ROW_NUMBER_OFFSET_def dest: cellErrors_row_column)

lemma duplicateErrors_type:
  "e \<in> set (duplicateErrors k m) \<Longrightarrow> errorType e = DUPLICATE \<and> column e = k"
  by (auto simp: duplicateErrors_def split: if_splits)

lemma duplicatePhaseErrors_type:
  "e \<in> set (duplicatePhaseErrors unique rows) \<Longrightarrow> errorType e = DUPLICATE"
  by (auto simp: duplicatePhaseErrors_def dest: duplicateErrors_type)

lemma rowPhaseErrors_row:
  assumes "i < length rows"
  shows "filter (\<lambda>e. row e = i + 2) (rowPhaseErrors schema rows) = rowErrors schema i (rows ! i)"
proof -
  have "filter (\<lambda>e. row e = i + 2) (rowPhaseErrors schema rows) =
          concat (map (\<lambda>p. rowErrors schema (fst p) (snd p))
                    (filter (\<lambda>p. fst p = i) (enumerate 0 rows)))"
    unfolding rowPhaseErrors_def
    by (rule filter_concat_map_key) (auto dest: rowErrors_row)
  then show ?thesis using assms by (simp add: filter_enumerate_index)
qed

lemma rowErrors_column:
  assumes "distinct (map fst schema)" "(c, rules) \<in> set schema"
  shows "filter (\<lambda>e. column e = c) (rowErrors schema i rw) =
           cellErrors (i + 2) c rules (trimValue (getProp rw c))"
proof -
  have "filter (\<lambda>e. column e = c) (rowErrors schema i rw) =
          concat (map (\<lambda>(col, rules).
                         cellErrors (i + ROW_NUMBER_OFFSET) col rules (trimValue (getProp rw col)))
                    (filter (\<lambda>p. fst p = c) schema))"
    unfolding rowErrors_def
    by (rule filter_concat_map_key) (auto dest: cellErrors_row_column)
  then show ?thesis using assms by (simp add: filter_schema_key ROW_NUMBER_OFFSET_def)
qed

lemma rowPhaseErrors_cell:
  assumes "distinct (map fst schema)" "(c, rules) \<in> set schema" "i < length rows"
  shows "filter (\<lambda>e. row e = i + 2 \<and> column e = c) (rowPhaseErrors schema rows) =
           cellErrors (i + 2) c rules (trimValue (getProp (rows ! i) c))"
proof -
  have "filter (\<lambda>e. row e = i + 2 \<and> column e = c) (rowPhaseErrors schema rows) =
          filter (\<lambda>e. column e = c) (filter (\<lambda>e. row e = i + 2) (rowPhaseErrors schema rows))"
    by simp
  then show ?thesis using assms by (simp only: rowPhaseErrors_row rowErrors_column)
qed

lemma trim_examples:
  "trim '' name'' = ''name''" "trim ''email '' = ''email''" "trim ''age'' = ''age''"
  "trim ''name'' = ''name''" "trim ''  '' = []" "trim ''email'' = ''email''"
  "trim ''id'' = ''id''" "trim '' id'' = ''id''"
  by (simp_all add: trim_def isWhiteSpace_def)

section \<open>Header reconciliation\<close>

text \<open>
  Claim C6. \<^verbatim>\<open>validateHeader(S, H)\<close> returns false if and only if some key of the schema
  is absent from the trimmed elements of the header array; when every key is present it
  returns true, whatever other headers the array holds.
\<close>

theorem validateHeader_false_iff_missing:
  "(validateHeader S H = False \<longleftrightarrow> (\<exists>k \<in> fst ` set S. k \<notin> trim ` set H)) \<and>
   (fst ` set S \<subseteq> trim ` set H \<longrightarrow> validateHeader S H = True)"
  by (auto simp: validateHeader_iff)

theorem validateHeader_false_iff_missing_witness:
  "validateHeader [(''name'', plainRules), (''email'', plainRules)]
     ['' name'', ''age'', ''email ''] = True \<and>
   validateHeader [(''name'', plainRules), (''email'', plainRules)] [''name'', ''age''] = False"
proof
  have "fst ` set [(''name'', plainRules), (''email'', plainRules)]
          \<subseteq> trim ` set ['' name'', ''age'', ''email '']"
    by (simp add: trim_examples)
  with validateHeader_false_iff_missing
         [of "[(''name'', plainRules), (''email'', plainRules)]" "['' name'', ''age'', ''email '']"]
  show "validateHeader [(''name'', plainRules), (''email'', plainRules)]
          ['' name'', ''age'', ''email ''] = True"
    by blast
next
  have "\<exists>k \<in> fst ` set [(''name'', plainRules), (''email'', plainRules)].
          k \<notin> trim ` set [''name'', ''age'']"
    by (simp add: trim_examples)
  with validateHeader_false_iff_missing
         [of "[(''name'', plainRules), (''email'', plainRules)]" "[''name'', ''age'']"]
  show "validateHeader [(''name'', plainRules), (''email'', plainRules)] [''name'', ''age''] = False"
    by blast
qed

section \<open>Required cells\<close>

text \<open>
  Claim C1. In a run that returns, take a row and a schema column whose rule is required,
  and let the trimmed cell be \<^verbatim>\<open>null\<close>, \<^verbatim>\<open>undefined\<close> or the empty string. Among the
  errors carrying that row number and that column, those whose type is not DUPLICATE are
  exactly one error: the REQUIRED error with the message "This field is required". So there
  is exactly one REQUIRED error for the cell and no TYPE_MISMATCH, EMAIL_RULE, MOBILE_RULE,
  EMPLOYEE_RULE, ACCEPTED_VALUES or CUSTOM_VALIDATION error. The keys of a schema object are
  pairwise distinct.
\<close>

theorem required_error_only:
  assumes "validateData sh cancelAt rows schema unique = Inr st"
    and "distinct (map fst schema)"
    and "i < length rows"
    and "(c, rules) \<in> set schema"
    and "required rules"
    and "trimValue (getProp (rows ! i) c) = JSNull
         \<or> trimValue (getProp (rows ! i) c) = JSUndefined
         \<or> trimValue (getProp (rows ! i) c) = JSString []"
  shows "filter (\<lambda>e. row e = i + 2 \<and> column e = c \<and> errorType e \<noteq> DUPLICATE) (errors st) =
           [\<lparr>row = i + 2, column = c, message = ''This field is required'',
             errorType = REQUIRED\<rparr>]"
proof -
  let ?v = "trimValue (getProp (rows ! i) c)"
  let ?P = "\<lambda>e. row e = i + 2 \<and> column e = c \<and> errorType e \<noteq> DUPLICATE"
  have cell: "cellErrors (i + 2) c rules ?v =
      [\<lparr>row = i + 2, column = c, message = ''This field is required'', errorType = REQUIRED\<rparr>]"
    using assms(5,6) by (auto simp: cellErrors_def)
  have dup: "filter ?P (duplicatePhaseErrors unique rows) = []"
    by (auto simp: filter_empty_conv dest: duplicatePhaseErrors_type)
  have "filter ?P (rowPhaseErrors schema rows) =
          filter (\<lambda>e. errorType e \<noteq> DUPLICATE)
            (filter (\<lambda>e. row e = i + 2 \<and> column e = c) (rowPhaseErrors schema rows))"
    by (simp add: conj_commute conj_left_commute)
  also have "\<dots> = filter (\<lambda>e. errorType e \<noteq> DUPLICATE) (cellErrors (i + 2) c rules ?v)"
    by (simp only: rowPhaseErrors_cell[OF assms(2,4,3)])
  also have "\<dots> = [\<lparr>row = i + 2, column = c, message = ''This field is required'',
                     errorType = REQUIRED\<rparr>]"
    by (subst cell) simp
  finally have rp: "filter ?P (rowPhaseErrors schema rows) =
      [\<lparr>row = i + 2, column = c, message = ''This field is required'', errorType = REQUIRED\<rparr>]" .
  show ?thesis
    unfolding validateData_Inr(1)[OF assms(1)] filter_append rp dup by simp
qed

theorem required_error_only_witness:
  "\<exists>st. validateData idleCells (\<lambda>k. False) [[''name'' \<mapsto> JSString ''  '']]
           [(''name'', requiredString)] [[''name'']] = Inr st \<and>
        required requiredString \<and>
        trimValue (getProp [''name'' \<mapsto> JSString ''  ''] ''name'') = JSString [] \<and>
        filter (\<lambda>e. row e = 0 + 2 \<and> column e = ''name'' \<and> errorType e \<noteq> DUPLICATE) (errors st) =
          [\<lparr>row = 0 + 2, column = ''name'', message = ''This field is required'',
            errorType = REQUIRED\<rparr>]"
proof -
  let ?rows = "[[''name'' \<mapsto> JSString ''  '']]"
  obtain st where st: "validateData idleCells (\<lambda>k. False) ?rows
      [(''name'', requiredString)] [[''name'']] = Inr st"
    using validateData_returns[where cancelAt = "\<lambda>k. False"] by blast
  have r: "required requiredString" by (simp add: requiredString_def)
  have v: "trimValue (getProp (?rows ! 0) ''name'') = JSString []"
    by (simp add: trimValue_def getProp_def trim_examples)
  have "filter (\<lambda>e. row e = 0 + 2 \<and> column e = ''name'' \<and> errorType e \<noteq> DUPLICATE) (errors st) =
          [\<lparr>row = 0 + 2, column = ''name'', message = ''This field is required'',
            errorType = REQUIRED\<rparr>]"
    by (rule required_error_only[OF st _ _ _ r]) (use v in simp_all)
  with st r v show ?thesis by auto
qed

section \<open>Processed rows\<close>

lemma dom_cleanRow: "dom (cleanRow schema rw) = fst ` set schema"
  by (auto simp: cleanRow_def dom_def)

lemma trimValue_not_string: "typeof v \<noteq> ''string'' \<Longrightarrow> trimValue v = v"
  by (cases v) (simp_all add: trimValue_def)

text \<open>
  Claim C5. A run that is never asked to stop returns, and whenever \<^verbatim>\<open>validateData\<close>
  returns, \<^verbatim>\<open>processedData\<close> has the length of the input; its \<open>i\<close>-th element comes from
  the \<open>i\<close>-th input row, has exactly the schema's columns as keys, holds the trimmed
  string where the cell is a string and the cell itself where it is not.
\<close>

theorem validateData_processedData:
  "((\<forall>k. \<not> cancelAt k) \<longrightarrow> (\<exists>st. validateData sh cancelAt R S U = Inr st)) \<and>
   (\<forall>st. validateData sh cancelAt R S U = Inr st \<longrightarrow>
      length (processedData st) = length R \<and>
      (\<forall>i<length R.
         dom (processedData st ! i) = fst ` set S \<and>
         (\<forall>c\<in>fst ` set S. \<forall>s. getProp (R ! i) c = JSString s \<longrightarrow>
             (processedData st ! i) c = Some (JSString (trim s))) \<and>
         (\<forall>c\<in>fst ` set S. typeof (getProp (R ! i) c) \<noteq> ''string'' \<longrightarrow>
             (processedData st ! i) c = Some (getProp (R ! i) c))))"
proof (intro conjI allI impI)
  assume "\<forall>k. \<not> cancelAt k"
  then show "\<exists>st. validateData sh cancelAt R S U = Inr st"
    by (intro validateData_returns) simp
next
  fix st assume st: "validateData sh cancelAt R S U = Inr st"
  show "length (processedData st) = length R"
    by (simp add: validateData_Inr(2)[OF st])
next
  fix st i assume st: "validateData sh cancelAt R S U = Inr st" and i: "i < length R"
  then show "dom (processedData st ! i) = fst ` set S"
    by (simp add: validateData_Inr(2)[OF st] dom_cleanRow)
next
  fix st i assume st: "validateData sh cancelAt R S U = Inr st" and i: "i < length R"
  show "\<forall>c\<in>fst ` set S. \<forall>s. getProp (R ! i) c = JSString s \<longrightarrow>
          (processedData st ! i) c = Some (JSString (trim s))"
    using i by (auto simp: validateData_Inr(2)[OF st] cleanRow_def trimValue_def)
next
  fix st i assume st: "validateData sh cancelAt R S U = Inr st" and i: "i < length R"
  show "\<forall>c\<in>fst ` set S. typeof (getProp (R ! i) c) \<noteq> ''string'' \<longrightarrow>
          (processedData st ! i) c = Some (getProp (R ! i) c)"
    using i by (auto simp: validateData_Inr(2)[OF st] cleanRow_def trimValue_not_string)
qed

theorem validateData_processedData_witness:
  "\<exists>st. validateData idleCells (\<lambda>k. False)
           [[''email'' \<mapsto> JSString '' x@y.com '', ''age'' \<mapsto> JSNumber 41, ''note'' \<mapsto> JSString ''n'']]
           [(''email'', requiredString), (''age'', plainRules)] [] = Inr st \<and>
        length (processedData st) = 1 \<and>
        dom (processedData st ! 0) = {''email'', ''age''} \<and>
        (processedData st ! 0) ''email'' = Some (JSString ''x@y.com'') \<and>
        (processedData st ! 0) ''age'' = Some (JSNumber 41)"
proof -
  let ?R = "[[''email'' \<mapsto> JSString '' x@y.com '', ''age'' \<mapsto> JSNumber 41, ''note'' \<mapsto> JSString ''n'']]"
  let ?S = "[(''email'', requiredString), (''age'', plainRules)]"
  note inst = validateData_processedData[of "\<lambda>k. False" idleCells ?R ?S "[]"]
  from inst obtain st where st: "validateData idleCells (\<lambda>k. False) ?R ?S [] = Inr st"
    by blast
  from inst st have len: "length (processedData st) = length ?R"
    and row0: "dom (processedData st ! 0) = fst ` set ?S \<and>
         (\<forall>c\<in>fst ` set ?S. \<forall>s. getProp (?R ! 0) c = JSString s \<longrightarrow>
             (processedData st ! 0) c = Some (JSString (trim s))) \<and>
         (\<forall>c\<in>fst ` set ?S. typeof (getProp (?R ! 0) c) \<noteq> ''string'' \<longrightarrow>
             (processedData st ! 0) c = Some (getProp (?R ! 0) c))"
    by auto
  have t: "trim '' x@y.com '' = ''x@y.com''"
    by (simp add: trim_def isWhiteSpace_def)
  from row0 have "(processedData st ! 0) ''email'' = Some (JSString (trim '' x@y.com ''))"
    by (simp add: getProp_def)
  moreover from row0 have "(processedData st ! 0) ''age'' = Some (JSNumber 41)"
    by (simp add: getProp_def)
  moreover from row0 have "dom (processedData st ! 0) = {''email'', ''age''}"
    by auto
  ultimately show ?thesis using st len t by auto
qed

section \<open>Evaluating the row phase on examples\<close>

lemma isEmail_examples: "isEmail ''x@y.com''" "\<not> isEmail ''bad''"
  by (simp_all add: isEmail_def emailPattern_def Plus_def notSpaceOrAt_def isWhiteSpace_def)

lemma trimValue_examples:
  "trimValue (JSString ''x@y.com'') = JSString ''x@y.com''"
  "trimValue (JSString ''bad'') = JSString ''bad''"
  by (simp_all add: trimValue_def trim_def isWhiteSpace_def)

lemma email_example_errors:
  "rowPhaseErrors [(''email'', emailRules)]
     [[''email'' \<mapsto> JSString ''x@y.com''], [''email'' \<mapsto> JSString ''bad'']] =
   [\<lparr>row = 3, column = ''email'', message = ''Invalid email address'', errorType = EMAIL_RULE\<rparr>]"
  by (simp add: rowPhaseErrors_def rowErrors_def cellErrors_def validatorErrors_def emailRules_def
      getProp_def trimValue_examples isEmail_examples ROW_NUMBER_OFFSET_def)

lemma initUniqueValues_Nil: "initUniqueValues [] = []"
  by (simp add: initUniqueValues_def)

lemma trackUnique_Nil: "trackUnique [] i rw uv = uv"
  by (simp add: trackUnique_def)

lemma finalUniqueValues_Nil: "finalUniqueValues [] rows = []"
proof -
  have "foldl (\<lambda>uv p. trackUnique [] (fst p) (snd p) uv) uv xs = uv" for uv and xs :: "(nat \<times> js_record) list"
    by (induction xs) (simp_all add: trackUnique_Nil)
  then show ?thesis by (simp add: finalUniqueValues_def initUniqueValues_Nil)
qed

lemma duplicatePhaseErrors_Nil: "duplicatePhaseErrors [] rows = []"
  by (simp add: duplicatePhaseErrors_def finalUniqueValues_Nil)

section \<open>Custom validators\<close>

lemma single_row_errors:
  "rowPhaseErrors [(c, rules)] [rw] = cellErrors 2 c rules (trimValue (getProp rw c))"
  by (simp add: rowPhaseErrors_def rowErrors_def ROW_NUMBER_OFFSET_def numeral_2_eq_2)

text \<open>
  Claim C7 asks that the custom validator be invoked with the cell value and the full row.
  The engine calls \<^verbatim>\<open>rules.customValidator(value)\<close>: the declared parameter
  \<^verbatim>\<open>rowData\<close> is never supplied. For the row \<open>{password: "s3cret", confirm: "s3cret"}\<close> the
  validator \<open>matchesConfirm\<close> accepts the value when it is given the row, yet the run reports
  the validator's error, merged with the row number 2 and the column name.
\<close>

theorem customValidator_called_without_row:
  "matchesConfirm (JSString ''s3cret'')
     (Some [''password'' \<mapsto> JSString ''s3cret'', ''confirm'' \<mapsto> JSString ''s3cret'']) = CustomTrue \<and>
   (\<exists>st. validateData idleCells (\<lambda>k. False)
           [[''password'' \<mapsto> JSString ''s3cret'', ''confirm'' \<mapsto> JSString ''s3cret'']]
           [(''password'', confirmRules)] [] = Inr st \<and>
         errors st = [\<lparr>row = 2, column = ''password'', message = ''Values differ'',
                        errorType = CUSTOM_VALIDATION\<rparr>])"
proof -
  let ?rw = "[''password'' \<mapsto> JSString ''s3cret'', ''confirm'' \<mapsto> JSString ''s3cret'']"
  have a: "matchesConfirm (JSString ''s3cret'') (Some ?rw) = CustomTrue"
    by (simp add: matchesConfirm_def getProp_def)
  obtain st where st: "validateData idleCells (\<lambda>k. False) [?rw] [(''password'', confirmRules)] [] = Inr st"
    using validateData_returns[where cancelAt = "\<lambda>k. False"] by blast
  have t: "trimValue (getProp ?rw ''password'') = JSString ''s3cret''"
    by (simp add: trimValue_def getProp_def trim_def isWhiteSpace_def)
  have "errors st = [\<lparr>row = 2, column = ''password'', message = ''Values differ'',
                        errorType = CUSTOM_VALIDATION\<rparr>]"
    unfolding validateData_Inr(1)[OF st] single_row_errors duplicatePhaseErrors_Nil t
    by (simp add: cellErrors_def confirmRules_def matchesConfirm_def valuesDiffer_def)
  with a st show ?thesis by blast
qed

section \<open>Built-in validators and the type of the value\<close>

lemma validatorErrors_other:
  "typeof v \<noteq> ''string'' \<Longrightarrow> typeof v \<noteq> ''number'' \<Longrightarrow> validatorErrors r c vs v = []"
  by (simp add: validatorErrors_def)

lemma cellErrors_builtin_types:
  assumes "e \<in> set (cellErrors r c rules v)"
    and "typeof v \<noteq> ''string''" and "typeof v \<noteq> ''number''"
    and "errorType e = EMAIL_RULE \<or> errorType e = MOBILE_RULE \<or> errorType e = EMPLOYEE_RULE"
  shows "\<exists>cv frag. customValidator rules = Some cv \<and> cv v None = CustomError frag \<and>
           e = frag\<lparr>row := r, column := c\<rparr>"
proof (cases "customValidator rules")
  case None
  with assms show ?thesis
    by (auto simp: cellErrors_def validatorErrors_other split: if_splits option.splits)
next
  case (Some cv)
  show ?thesis
  proof (cases "cv v None")
    case CustomTrue
    with Some assms show ?thesis
      by (auto simp: cellErrors_def validatorErrors_other split: if_splits option.splits)
  next
    case (CustomError frag)
    with Some assms have "e = frag\<lparr>row := r, column := c\<rparr>"
      by (auto simp: cellErrors_def validatorErrors_other split: if_splits option.splits)
    with Some CustomError show ?thesis by blast
  qed
qed

lemma run_cell_errors:
  assumes "validateData sh cancelAt rows schema unique = Inr st"
    and "distinct (map fst schema)" and "i < length rows" and "(c, rules) \<in> set schema"
    and "e \<in> set (errors st)" and "row e = i + 2" and "column e = c"
    and "errorType e \<noteq> DUPLICATE"
  shows "e \<in> set (cellErrors (i + 2) c rules (trimValue (getProp (rows ! i) c)))"
proof -
  from assms(5,8) have "e \<in> set (rowPhaseErrors schema rows)"
    by (auto simp: validateData_Inr(1)[OF assms(1)] dest: duplicatePhaseErrors_type)
  with assms(6,7) have "e \<in> set (filter (\<lambda>e. row e = i + 2 \<and> column e = c) (rowPhaseErrors schema rows))"
    by simp
  then show ?thesis by (simp only: rowPhaseErrors_cell[OF assms(2,4,3)])
qed

text \<open>
  Claim C10, amended. In a run that returns, let the trimmed value of a cell be neither a
  string nor a number. Then the built-in validators contribute nothing for that cell: an
  error at that row and column whose type is EMAIL_RULE, MOBILE_RULE or EMPLOYEE_RULE can
  only be the fragment that the column's custom validator returned for the value, which
  keeps the type it came with. Moreover the validators step ignores the email validator
  for a number while it applies the mobile and employee-number validators to it, and it
  applies all three to a string.
\<close>

theorem validators_by_value_type:
  "(validateData sh cancelAt rows schema unique = Inr st \<longrightarrow> distinct (map fst schema) \<longrightarrow>
      i < length rows \<longrightarrow> (c, rules) \<in> set schema \<longrightarrow>
      typeof (trimValue (getProp (rows ! i) c)) \<noteq> ''string'' \<longrightarrow>
      typeof (trimValue (getProp (rows ! i) c)) \<noteq> ''number'' \<longrightarrow>
      (\<forall>e \<in> set (errors st).
         row e = i + 2 \<longrightarrow> column e = c \<longrightarrow>
         errorType e = EMAIL_RULE \<or> errorType e = MOBILE_RULE \<or> errorType e = EMPLOYEE_RULE \<longrightarrow>
         (\<exists>cv frag. customValidator rules = Some cv \<and>
            cv (trimValue (getProp (rows ! i) c)) None = CustomError frag \<and>
            e = frag\<lparr>row := i + 2, column := c\<rparr>))) \<and>
   validatorErrors r col vs (JSNumber n) =
     (if isMobileNumber_enabled vs \<and> \<not> isMobileNumber (JSNumber n)
      then [\<lparr>row = r, column = col, message = ''Invalid mobile number'', errorType = MOBILE_RULE\<rparr>]
      else [])
     @ (if isEmployeeNumber_enabled vs \<and> \<not> isEmployeeNumber (JSNumber n)
        then [\<lparr>row = r, column = col, message = ''Invalid employee number'',
               errorType = EMPLOYEE_RULE\<rparr>]
        else []) \<and>
   validatorErrors r col vs (JSString s) =
     (if isEmail_enabled vs \<and> \<not> isEmail s
      then [\<lparr>row = r, column = col, message = ''Invalid email address'', errorType = EMAIL_RULE\<rparr>]
      else [])
     @ (if isMobileNumber_enabled vs \<and> \<not> isMobileNumber (JSString s)
        then [\<lparr>row = r, column = col, message = ''Invalid mobile number'', errorType = MOBILE_RULE\<rparr>]
        else [])
     @ (if isEmployeeNumber_enabled vs \<and> \<not> isEmployeeNumber (JSString s)
        then [\<lparr>row = r, column = col, message = ''Invalid employee number'',
               errorType = EMPLOYEE_RULE\<rparr>]
        else [])"
proof (intro conjI impI ballI)
  fix e
  let ?v = "trimValue (getProp (rows ! i) c)"
  assume run: "validateData sh cancelAt rows schema unique = Inr st"
    and d: "distinct (map fst schema)" and i: "i < length rows" and c: "(c, rules) \<in> set schema"
    and ns: "typeof ?v \<noteq> ''string''" and nn: "typeof ?v \<noteq> ''number''"
    and e: "e \<in> set (errors st)" and r: "row e = i + 2" and col: "column e = c"
    and ty: "errorType e = EMAIL_RULE \<or> errorType e = MOBILE_RULE \<or> errorType e = EMPLOYEE_RULE"
  from ty have "errorType e \<noteq> DUPLICATE" by auto
  from run_cell_errors[OF run d i c e r col this]
  have "e \<in> set (cellErrors (i + 2) c rules ?v)" .
  then show "\<exists>cv frag. customValidator rules = Some cv \<and> cv ?v None = CustomError frag \<and>
      e = frag\<lparr>row := i + 2, column := c\<rparr>"
    using ns nn ty by (rule cellErrors_builtin_types)
qed (simp_all add: validatorErrors_def)

theorem validators_by_value_type_witness:
  "\<exists>st. validateData idleCells (\<lambda>k. False) [[''active'' \<mapsto> JSBoolean True]]
           [(''active'', flagRules)] [] = Inr st \<and>
        typeof (trimValue (getProp [''active'' \<mapsto> JSBoolean True] ''active'')) = ''boolean'' \<and>
        validators flagRules = Some allValidators \<and>
        filter (\<lambda>e. row e = 0 + 2 \<and> column e = ''active'' \<and>
                    (errorType e = EMAIL_RULE \<or> errorType e = MOBILE_RULE \<or> errorType e = EMPLOYEE_RULE))
          (errors st) = []"
proof -
  let ?rows = "[[''active'' \<mapsto> JSBoolean True]]"
  obtain st where st: "validateData idleCells (\<lambda>k. False) ?rows [(''active'', flagRules)] [] = Inr st"
    using validateData_returns[where cancelAt = "\<lambda>k. False"] by blast
  have v: "trimValue (getProp (?rows ! 0) ''active'') = JSBoolean True"
    by (simp add: trimValue_def getProp_def)
  have "\<forall>e \<in> set (errors st).
         row e = 0 + 2 \<longrightarrow> column e = ''active'' \<longrightarrow>
         errorType e = EMAIL_RULE \<or> errorType e = MOBILE_RULE \<or> errorType e = EMPLOYEE_RULE \<longrightarrow>
         (\<exists>cv frag. customValidator flagRules = Some cv \<and>
            cv (trimValue (getProp (?rows ! 0) ''active'')) None = CustomError frag \<and>
            e = frag\<lparr>row := 0 + 2, column := ''active''\<rparr>)"
    using validators_by_value_type[where rows = ?rows and i = 0 and c = "''active''"
        and rules = flagRules and schema = "[(''active'', flagRules)]" and st = st
        and sh = idleCells and cancelAt = "\<lambda>k. False" and unique = "[]"] st v
    by simp
  then have "filter (\<lambda>e. row e = 0 + 2 \<and> column e = ''active'' \<and>
                    (errorType e = EMAIL_RULE \<or> errorType e = MOBILE_RULE \<or> errorType e = EMPLOYEE_RULE))
          (errors st) = []"
    by (auto simp: filter_empty_conv flagRules_def)
  moreover have "validators flagRules = Some allValidators" by (simp add: flagRules_def)
  ultimately show ?thesis using st v by auto
qed

text \<open>
  Claim C10 as stated fails: the cell below is the boolean \<open>true\<close>, and the run reports an
  EMAIL_RULE error for it, the fragment of the column's custom validator.
\<close>

theorem validators_by_value_type_counterexample:
  "typeof (trimValue (getProp [''active'' \<mapsto> JSBoolean True] ''active'')) = ''boolean'' \<and>
   (\<exists>st. validateData idleCells (\<lambda>k. False) [[''active'' \<mapsto> JSBoolean True]]
           [(''active'', flagRulesCustom)] [] = Inr st \<and>
         errors st = [\<lparr>row = 2, column = ''active'', message = ''Not an email'',
                        errorType = EMAIL_RULE\<rparr>])"
proof -
  let ?rw = "[''active'' \<mapsto> JSBoolean True]"
  obtain st where st: "validateData idleCells (\<lambda>k. False) [?rw] [(''active'', flagRulesCustom)] [] = Inr st"
    using validateData_returns[where cancelAt = "\<lambda>k. False"] by blast
  have t: "trimValue (getProp ?rw ''active'') = JSBoolean True"
    by (simp add: trimValue_def getProp_def)
  have "errors st = [\<lparr>row = 2, column = ''active'', message = ''Not an email'',
                        errorType = EMAIL_RULE\<rparr>]"
    unfolding validateData_Inr(1)[OF st] single_row_errors duplicatePhaseErrors_Nil t
    by (simp add: cellErrors_def flagRulesCustom_def validatorErrors_def notAnEmail_def)
  with st t show ?thesis by auto
qed

section \<open>The keys of uniqueValues\<close>

lemma mutateAt_keys [simp]: "map fst (mutateAt k f obj) = map fst obj"
  by (induction obj) (auto simp: mutateAt_def)

lemma trackUnique_keys [simp]: "map fst (trackUnique unique i rw uv) = map fst uv"
  unfolding trackUnique_def by (induction unique arbitrary: uv) simp_all

lemma finalUniqueValues_keys:
  "map fst (finalUniqueValues unique rows) = map fst (initUniqueValues unique)"
proof -
  have "map fst (foldl (\<lambda>uv p. trackUnique unique (fst p) (snd p) uv) uv xs) = map fst uv"
    for uv and xs :: "(nat \<times> js_record) list"
    by (induction xs arbitrary: uv) simp_all
  then show ?thesis by (simp add: finalUniqueValues_def)
qed

lemma length_finalUniqueValues:
  "length (finalUniqueValues unique rows) = length (initUniqueValues unique)"
  using finalUniqueValues_keys[of unique rows] by (metis length_map)

section \<open>Cancellation\<close>

lemma validateData_cells_irrelevant:
  "validateData sh cancelAt rows schema unique = validateData sh' cancelAt rows schema unique"
  by (simp add: validateData_stepLoop)

lemma stepErrors_first_row:
  "take 1 (stepErrors schema unique (rw # rows)) = [rowErrors schema 0 rw]"
  by (simp add: stepErrors_def)

text \<open>
  Claim C4, amended. A set flag read at the start of a row iteration or of a resolution
  iteration makes the loop throw the cancellation signal with the errors accumulated so
  far. Within a run: if the application first calls \<^verbatim>\<open>cancelValidation\<close> during the yield
  after step \<open>j\<close>, and an iteration is still to come, the run throws the signal carrying
  exactly the errors of its first \<open>j\<close> steps; after the first row these are that row's
  errors. The flag is cleared at entry and no yield precedes the first check, so the cells
  a run starts from make no difference: a flag set before the run is discarded.
\<close>

theorem cancellation_carries_errors:
  "(isValidationCancelled (cells st) \<longrightarrow>
      rowLoop cancelAt T schema unique i (rw # rest) st
        = Inl (ValidationCancellationError (errors st))) \<and>
   (isValidationCancelled (cells st) \<longrightarrow>
      uniqueLoop cancelAt T ((k, valueMap) # entries) st
        = Inl (ValidationCancellationError (errors st))) \<and>
   (0 < j \<longrightarrow> cancelAt j \<longrightarrow> (\<forall>k. 0 < k \<longrightarrow> k < j \<longrightarrow> \<not> cancelAt k) \<longrightarrow>
      j < length rows + length (initUniqueValues unique) \<longrightarrow>
      validateData sh cancelAt rows schema unique
        = Inl (ValidationCancellationError (concat (take j (stepErrors schema unique rows))))) \<and>
   (cancelAt 1 \<longrightarrow> 1 < length (rw # rows) + length (initUniqueValues unique) \<longrightarrow>
      validateData sh cancelAt (rw # rows) schema unique
        = Inl (ValidationCancellationError (rowErrors schema 0 rw))) \<and>
   validateData (cancelValidation sh) cancelAt rows schema unique
     = validateData sh cancelAt rows schema unique"
proof (intro conjI impI)
  assume "isValidationCancelled (cells st)"
  then show "rowLoop cancelAt T schema unique i (rw # rest) st
        = Inl (ValidationCancellationError (errors st))"
    by (simp add: rowLoop_Cons)
next
  assume "isValidationCancelled (cells st)"
  then show "uniqueLoop cancelAt T ((k, valueMap) # entries) st
        = Inl (ValidationCancellationError (errors st))"
    by (simp add: uniqueLoop.simps(2))
next
  assume "0 < j" "cancelAt j" "\<forall>k. 0 < k \<longrightarrow> k < j \<longrightarrow> \<not> cancelAt k"
    "j < length rows + length (initUniqueValues unique)"
  then show "validateData sh cancelAt rows schema unique
        = Inl (ValidationCancellationError (concat (take j (stepErrors schema unique rows))))"
    by (intro validateData_cancel) (simp_all add: length_finalUniqueValues)
next
  assume c: "cancelAt 1" and n: "1 < length (rw # rows) + length (initUniqueValues unique)"
  have "validateData sh cancelAt (rw # rows) schema unique
        = Inl (ValidationCancellationError (concat (take 1 (stepErrors schema unique (rw # rows)))))"
    by (rule validateData_cancel) (use c n in \<open>simp_all add: length_finalUniqueValues\<close>)
  then show "validateData sh cancelAt (rw # rows) schema unique
        = Inl (ValidationCancellationError (rowErrors schema 0 rw))"
    by (simp only: stepErrors_first_row) simp
next
  show "validateData (cancelValidation sh) cancelAt rows schema unique
     = validateData sh cancelAt rows schema unique"
    by (rule validateData_cells_irrelevant)
qed

lemma bad_email_row_errors:
  "rowErrors [(''email'', emailRules)] 0 [''email'' \<mapsto> JSString ''bad''] =
     [\<lparr>row = 2, column = ''email'', message = ''Invalid email address'', errorType = EMAIL_RULE\<rparr>]"
  by (simp add: rowErrors_def cellErrors_def validatorErrors_def emailRules_def
      getProp_def trimValue_examples isEmail_examples ROW_NUMBER_OFFSET_def)

theorem cancellation_carries_errors_witness:
  "validateData idleCells (\<lambda>k. k = 1)
     [[''email'' \<mapsto> JSString ''bad''], [''email'' \<mapsto> JSString ''bad'']]
     [(''email'', emailRules)] [] =
   Inl (ValidationCancellationError
     [\<lparr>row = 2, column = ''email'', message = ''Invalid email address'',
       errorType = EMAIL_RULE\<rparr>])"
  using cancellation_carries_errors[where cancelAt = "\<lambda>k. k = 1"
      and rw = "[''email'' \<mapsto> JSString ''bad'']" and rows = "[[''email'' \<mapsto> JSString ''bad'']]"
      and schema = "[(''email'', emailRules)]" and unique = "[]" and sh = idleCells]
  by (simp add: bad_email_row_errors)

text \<open>
  Claim C4 as stated fails in its second part: with the flag set before the first row is
  processed (here by \<^verbatim>\<open>cancelValidation\<close> before the call) the run does not throw the
  cancellation signal; it processes the row and returns that row's error.
\<close>

theorem cancellation_carries_errors_counterexample:
  "isValidationCancelled (cancelValidation idleCells) \<and>
   (\<exists>st. validateData (cancelValidation idleCells) (\<lambda>k. False) [[''email'' \<mapsto> JSString ''bad'']]
           [(''email'', emailRules)] [] = Inr st \<and>
         errors st = [\<lparr>row = 2, column = ''email'', message = ''Invalid email address'',
                        errorType = EMAIL_RULE\<rparr>])"
proof -
  obtain st where st: "validateData (cancelValidation idleCells) (\<lambda>k. False)
      [[''email'' \<mapsto> JSString ''bad'']] [(''email'', emailRules)] [] = Inr st"
    using validateData_returns[where cancelAt = "\<lambda>k. False"] by blast
  have "errors st = [\<lparr>row = 2, column = ''email'', message = ''Invalid email address'',
                        errorType = EMAIL_RULE\<rparr>]"
    unfolding validateData_Inr(1)[OF st] duplicatePhaseErrors_Nil
    by (simp add: rowPhaseErrors_def bad_email_row_errors)
  moreover have "isValidationCancelled (cancelValidation idleCells)"
    by (simp add: cancelValidation_def)
  ultimately show ?thesis using st by blast
qed

section \<open>The content of uniqueValues\<close>

lemma mapSet_new: "k \<notin> fst ` set m \<Longrightarrow> mapSet k v m = m @ [(k, v)]"
  by (induction m) auto

lemma mapSet_keys:
  "map fst (mapSet k v m) = (if map_of m k = None then map fst m @ [k] else map fst m)"
  by (induction m) auto

lemma mapSet_keys_mem: "k \<in> fst ` set m \<Longrightarrow> map fst (mapSet k v m) = map fst m"
  by (simp add: mapSet_keys map_of_eq_None_iff)

lemma mapSet_subset: "set (mapSet k v m) \<subseteq> insert (k, v) (set m)"
  by (induction m) (auto split: if_splits)

lemma insertIndexKey_set: "set (insertIndexKey k v obj) = insert (k, v) (set obj)"
  by (induction obj) (auto split: if_splits)

lemma insertIndexKey_keys:
  "fst ` set (insertIndexKey k v obj) = insert k (fst ` set obj)"
  by (simp add: insertIndexKey_set)

lemma insertIndexKey_distinct:
  "k \<notin> fst ` set obj \<Longrightarrow> distinct (map fst obj) \<Longrightarrow>
     distinct (map fst (insertIndexKey k v obj))"
proof (induction obj)
  case Nil
  then show ?case by simp
next
  case (Cons p obj)
  obtain a b where p: "p = (a, b)" by (cases p)
  from Cons.prems have "k \<noteq> a" "k \<notin> fst ` set obj" "a \<notin> fst ` set obj" "distinct (map fst obj)"
    by (simp_all add: p)
  with Cons.IH show ?case
    by (simp add: p insertIndexKey_keys)
qed

lemma insertIndexKey_length: "length (insertIndexKey k v obj) = Suc (length obj)"
  by (induction obj) auto

lemma insertIndexKey_subset: "set (insertIndexKey k v obj) \<subseteq> insert (k, v) (set obj)"
  by (simp add: insertIndexKey_set)

lemma objSet_keys: "fst ` set (objSet k v obj) = insert k (fst ` set obj)"
proof (cases "k \<in> fst ` set obj")
  case True
  then have "set (map fst (mapSet k v obj)) = set (map fst obj)"
    by (simp only: mapSet_keys_mem)
  with True show ?thesis by (auto simp: objSet_def)
next
  case False
  then show ?thesis by (auto simp: objSet_def insertIndexKey_keys)
qed

lemma objSet_distinct: "distinct (map fst obj) \<Longrightarrow> distinct (map fst (objSet k v obj))"
  by (auto simp: objSet_def mapSet_keys_mem insertIndexKey_distinct)

lemma objSet_length:
  "length (objSet k v obj) = (if k \<in> fst ` set obj then length obj else Suc (length obj))"
proof (cases "k \<in> fst ` set obj")
  case True
  then have "length (map fst (mapSet k v obj)) = length (map fst obj)"
    by (simp only: mapSet_keys_mem)
  with True show ?thesis by (simp add: objSet_def)
next
  case False
  then show ?thesis by (simp add: objSet_def insertIndexKey_length)
qed

lemma objSet_subset: "set (objSet k v obj) \<subseteq> insert (k, v) (set obj)"
  using mapSet_subset[of k v obj] insertIndexKey_subset[of k v obj]
  by (auto simp: objSet_def)

lemma init_fold:
  "distinct (map fst uv) \<Longrightarrow>
     distinct (map fst (foldl (\<lambda>uv cols. objSet (constraintKey cols) ([] :: value_map) uv) uv us)) \<and>
     fst ` set (foldl (\<lambda>uv cols. objSet (constraintKey cols) ([] :: value_map) uv) uv us) =
       fst ` set uv \<union> constraintKey ` set us"
proof (induction us arbitrary: uv)
  case Nil
  then show ?case by simp
next
  case (Cons c us)
  from Cons.IH[OF objSet_distinct[OF Cons.prems]] show ?case
    by (simp add: objSet_keys)
qed

lemma init_fold_values:
  "(\<forall>p \<in> set uv. snd p = []) \<Longrightarrow>
     (\<forall>p \<in> set (foldl (\<lambda>uv cols. objSet (constraintKey cols) ([] :: value_map) uv) uv us). snd p = [])"
proof (induction us arbitrary: uv)
  case Nil
  then show ?case by simp
next
  case (Cons c us)
  have "\<forall>p \<in> set (objSet (constraintKey c) ([] :: value_map) uv). snd p = []"
    using Cons.prems objSet_subset[of "constraintKey c" "[]" uv] by auto
  from Cons.IH[OF this] show ?case by simp
qed

lemma init_fold_length:
  "distinct (map constraintKey us) \<Longrightarrow> constraintKey ` set us \<inter> fst ` set uv = {} \<Longrightarrow>
     length (foldl (\<lambda>uv cols. objSet (constraintKey cols) ([] :: value_map) uv) uv us) =
       length uv + length us"
proof (induction us arbitrary: uv)
  case Nil
  then show ?case by simp
next
  case (Cons c us)
  have "constraintKey ` set us \<inter> fst ` set (objSet (constraintKey c) ([] :: value_map) uv) = {}"
    using Cons.prems by (auto simp: objSet_keys)
  with Cons.IH[of "objSet (constraintKey c) [] uv"] Cons.prems show ?case
    by (auto simp: objSet_length)
qed

lemma initUniqueValues_distinct: "distinct (map fst (initUniqueValues unique))"
  using init_fold[of "[]" unique] by (simp add: initUniqueValues_def)

lemma initUniqueValues_keys:
  "fst ` set (initUniqueValues unique) = constraintKey ` set unique"
  using init_fold[of "[]" unique] by (simp add: initUniqueValues_def)

lemma initUniqueValues_length:
  "distinct (map constraintKey unique) \<Longrightarrow> length (initUniqueValues unique) = length unique"
  using init_fold_length[of unique "[]"] by (simp add: initUniqueValues_def)

lemma initUniqueValues_lookup:
  assumes "cols \<in> set unique"
  shows "map_of (initUniqueValues unique) (constraintKey cols) = Some []"
proof -
  from assms have "constraintKey cols \<in> fst ` set (initUniqueValues unique)"
    by (simp add: initUniqueValues_keys)
  then obtain m where m: "(constraintKey cols, m) \<in> set (initUniqueValues unique)"
    by auto
  moreover have "\<forall>p \<in> set (initUniqueValues unique). snd p = []"
    using init_fold_values[of "[]" unique] by (simp add: initUniqueValues_def)
  ultimately have "(constraintKey cols, []) \<in> set (initUniqueValues unique)"
    by auto
  then show ?thesis
    by (simp add: initUniqueValues_distinct)
qed

lemma map_of_mutateAt:
  "map_of (mutateAt k f obj) k' = (if k' = k then map_option f (map_of obj k) else map_of obj k')"
  by (induction obj) (auto simp: mutateAt_def)

lemma filter_key_distinct:
  "distinct (map f xs) \<Longrightarrow> x \<in> set xs \<Longrightarrow> filter (\<lambda>y. f y = f x) xs = [x]"
proof (induction xs)
  case Nil
  then show ?case by simp
next
  case (Cons a xs)
  show ?case
  proof (cases "a = x")
    case True
    with Cons.prems have "filter (\<lambda>y. f y = f x) xs = []"
      by (auto simp: filter_empty_conv image_iff)
    with True show ?thesis by simp
  next
    case False
    with Cons.prems have "x \<in> set xs" "f a \<noteq> f x" by (auto simp: image_iff)
    with Cons show ?thesis by simp
  qed
qed

lemma map_of_trackUnique:
  "map_of (trackUnique us i rw uv) k =
     map_option
       (\<lambda>m. foldl (\<lambda>m cols. recordValue (i + ROW_NUMBER_OFFSET) (compositeValue rw cols) m) m
              (filter (\<lambda>cols. constraintKey cols = k) us))
       (map_of uv k)"
  unfolding trackUnique_def
proof (induction us arbitrary: uv)
  case Nil
  then show ?case by (simp add: option.map_ident)
next
  case (Cons c us)
  show ?case
    by (simp add: Cons.IH map_of_mutateAt option.map_comp comp_def)
qed

lemma map_of_trackUnique_group:
  assumes "filter (\<lambda>c. constraintKey c = constraintKey cols) us = [cols]"
  shows "map_of (trackUnique us i rw uv) (constraintKey cols) =
           map_option (recordValue (i + ROW_NUMBER_OFFSET) (compositeValue rw cols))
             (map_of uv (constraintKey cols))"
  by (simp add: map_of_trackUnique assms)

lemma map_of_track_rows:
  assumes "filter (\<lambda>c. constraintKey c = constraintKey cols) us = [cols]"
  shows "map_of (foldl (\<lambda>uv p. trackUnique us (fst p) (snd p) uv) uv ps) (constraintKey cols) =
           map_option
             (\<lambda>m. foldl (\<lambda>m p. recordValue (fst p + ROW_NUMBER_OFFSET) (compositeValue (snd p) cols) m)
                    m ps)
             (map_of uv (constraintKey cols))"
proof (induction ps arbitrary: uv)
  case Nil
  then show ?case by (simp add: option.map_ident)
next
  case (Cons p ps)
  show ?case
    by (simp add: Cons.IH map_of_trackUnique_group[OF assms] option.map_comp comp_def)
qed

lemma firstSeen_snoc:
  "firstSeen (ys @ [y]) = (if y \<in> set ys then firstSeen ys else firstSeen ys @ [y])"
  by (simp add: firstSeen_def)

lemma firstSeen_set [simp]: "set (firstSeen ys) = set ys"
  by (simp add: firstSeen_def)

lemma firstSeen_distinct [simp]: "distinct (firstSeen ys)"
  by (simp add: firstSeen_def)

lemma rowNumbersOf_snoc:
  "rowNumbersOf cols (xs @ [x]) v =
     rowNumbersOf cols xs v
       @ (if compositeValue x cols = v then [length xs + ROW_NUMBER_OFFSET] else [])"
  by (simp add: rowNumbersOf_def enumerate_append_eq)

lemma rowNumbersOf_absent:
  "v \<notin> (\<lambda>rw. compositeValue rw cols) ` set xs \<Longrightarrow> rowNumbersOf cols xs v = []"
  by (auto simp: rowNumbersOf_def filter_empty_conv in_set_enumerate_eq)

lemma map_of_tabulate:
  "map_of (map (\<lambda>v. (v, f v)) vs) k = (if k \<in> set vs then Some (f k) else None)"
  by (induction vs) auto

lemma mapSet_tabulate:
  "distinct vs \<Longrightarrow> k \<in> set vs \<Longrightarrow>
     mapSet k w (map (\<lambda>v. (v, f v)) vs) = map (\<lambda>v. (v, if v = k then w else f v)) vs"
  by (induction vs) auto

lemma mapSet_tabulate_new:
  "k \<notin> set vs \<Longrightarrow>
     mapSet k w (map (\<lambda>v. (v, f v)) vs) = map (\<lambda>v. (v, f v)) vs @ [(k, w)]"
  by (induction vs) auto

lemma recordValue_groupRows:
  "recordValue (length xs + ROW_NUMBER_OFFSET) (compositeValue x cols) (groupRows cols xs) =
     groupRows cols (xs @ [x])"
proof -
  let ?v = "compositeValue x cols"
  let ?vs = "firstSeen (map (\<lambda>rw. compositeValue rw cols) xs)"
  let ?r = "length xs + ROW_NUMBER_OFFSET"
  show ?thesis
  proof (cases "?v \<in> set ?vs")
    case True
    have "recordValue ?r ?v (groupRows cols xs) =
            map (\<lambda>v. (v, if v = ?v then rowNumbersOf cols xs ?v @ [?r] else rowNumbersOf cols xs v)) ?vs"
      using True by (simp add: recordValue_def groupRows_def map_of_tabulate mapSet_tabulate)
    also have "\<dots> = map (\<lambda>v. (v, rowNumbersOf cols (xs @ [x]) v)) ?vs"
      by (auto simp: rowNumbersOf_snoc)
    also have "\<dots> = groupRows cols (xs @ [x])"
      using True by (simp add: groupRows_def firstSeen_snoc)
    finally show ?thesis .
  next
    case False
    then have absent: "?v \<notin> (\<lambda>rw. compositeValue rw cols) ` set xs" by simp
    have 1: "recordValue ?r ?v (groupRows cols xs) = groupRows cols xs @ [(?v, [?r])]"
      using False by (simp add: recordValue_def groupRows_def map_of_tabulate mapSet_tabulate_new)
    have 2: "groupRows cols (xs @ [x]) =
               map (\<lambda>v. (v, rowNumbersOf cols (xs @ [x]) v)) ?vs @ [(?v, rowNumbersOf cols (xs @ [x]) ?v)]"
      using False by (simp add: groupRows_def firstSeen_snoc)
    have 3: "map (\<lambda>v. (v, rowNumbersOf cols (xs @ [x]) v)) ?vs = groupRows cols xs"
      unfolding groupRows_def using False by (auto simp: rowNumbersOf_snoc)
    have 4: "rowNumbersOf cols (xs @ [x]) ?v = [?r]"
      by (simp add: rowNumbersOf_snoc rowNumbersOf_absent[OF absent])
    show ?thesis by (simp only: 1 2 3 4)
  qed
qed

lemma track_group_rows:
  "foldl (\<lambda>m p. recordValue (fst p + ROW_NUMBER_OFFSET) (compositeValue (snd p) cols) m) []
     (enumerate 0 rows) = groupRows cols rows"
proof (induction rows rule: rev_induct)
  case Nil
  then show ?case by (simp add: groupRows_def firstSeen_def)
next
  case (snoc x xs)
  then show ?case by (simp add: enumerate_append_eq recordValue_groupRows)
qed

lemma finalUniqueValues_lookup:
  assumes "filter (\<lambda>c. constraintKey c = constraintKey cols) unique = [cols]"
  shows "map_of (finalUniqueValues unique rows) (constraintKey cols) = Some (groupRows cols rows)"
proof -
  have "cols \<in> set (filter (\<lambda>c. constraintKey c = constraintKey cols) unique)"
    by (simp only: assms list.set_intros)
  then have mem: "cols \<in> set unique" by simp
  show ?thesis
    by (simp add: finalUniqueValues_def map_of_track_rows[OF assms]
        initUniqueValues_lookup[OF mem] track_group_rows)
qed

lemma finalUniqueValues_distinct: "distinct (map fst (finalUniqueValues unique rows))"
  by (simp add: finalUniqueValues_keys initUniqueValues_distinct)

lemma duplicateErrors_groupRows:
  "duplicateErrors (constraintKey cols) (groupRows cols rows) = groupDuplicates cols rows"
  unfolding duplicateErrors_def groupRows_def groupDuplicates_def duplicateMessage_def
  by (simp add: comp_def)

lemma duplicatePhaseErrors_group:
  assumes "filter (\<lambda>c. constraintKey c = constraintKey cols) unique = [cols]"
  shows "filter (\<lambda>e. column e = constraintKey cols) (duplicatePhaseErrors unique rows) =
           groupDuplicates cols rows"
proof -
  have mem: "(constraintKey cols, groupRows cols rows) \<in> set (finalUniqueValues unique rows)"
    using finalUniqueValues_lookup[OF assms] by (rule map_of_SomeD)
  have "filter (\<lambda>e. column e = constraintKey cols) (duplicatePhaseErrors unique rows) =
          concat (map (\<lambda>p. duplicateErrors (fst p) (snd p))
                    (filter (\<lambda>p. fst p = constraintKey cols) (finalUniqueValues unique rows)))"
    unfolding duplicatePhaseErrors_def
    by (rule filter_concat_map_key) (auto dest: duplicateErrors_type)
  also have "filter (\<lambda>p. fst p = constraintKey cols) (finalUniqueValues unique rows) =
               [(constraintKey cols, groupRows cols rows)]"
    using filter_schema_key[OF finalUniqueValues_distinct mem] .
  finally show ?thesis by (simp add: duplicateErrors_groupRows)
qed

section \<open>Evaluating the duplicate phase on examples\<close>

lemmas unique_eval =
  duplicatePhaseErrors_def finalUniqueValues_def initUniqueValues_def trackUnique_def
  mutateAt_def recordValue_def objSet_def isArrayIndex_def isDigit_def constraintKey_def
  compositeValue_def arrayJoin_def getProp_def trimValue_def trim_def isWhiteSpace_def
  duplicateErrors_def duplicateMessage_def ROW_NUMBER_OFFSET_def showNat.simps

lemma idRows_duplicates:
  "duplicatePhaseErrors [[''id'']] idRows =
     [\<lparr>row = 2, column = ''id'', message = ''Duplicate value found: 1 in rows 2, 4'',
       errorType = DUPLICATE\<rparr>,
      \<lparr>row = 4, column = ''id'', message = ''Duplicate value found: 1 in rows 2, 4'',
       errorType = DUPLICATE\<rparr>]"
  by (simp add: unique_eval idRows_def)

lemma staffRows_alone:
  "duplicatePhaseErrors [[''emp'', ''id'']] staffRows = []"
  "duplicatePhaseErrors [[''emp-id'']] staffRows = []"
  by (simp_all add: unique_eval staffRows_def)

lemma staffRows_together:
  "duplicatePhaseErrors [[''emp'', ''id''], [''emp-id'']] staffRows =
     [\<lparr>row = 2, column = ''emp-id'', message = ''Duplicate value found: 7-1 in rows 2, 3'',
       errorType = DUPLICATE\<rparr>,
      \<lparr>row = 3, column = ''emp-id'', message = ''Duplicate value found: 7-1 in rows 2, 3'',
       errorType = DUPLICATE\<rparr>]"
  by (simp add: unique_eval staffRows_def)

lemma spaced_key_duplicates:
  "duplicatePhaseErrors [['' id'']] [['' id'' \<mapsto> JSString ''7''], ['' id'' \<mapsto> JSString ''7'']] =
     [\<lparr>row = 2, column = ''id'', message = ''Duplicate value found: 7 in rows 2, 3'',
       errorType = DUPLICATE\<rparr>,
      \<lparr>row = 3, column = ''id'', message = ''Duplicate value found: 7 in rows 2, 3'',
       errorType = DUPLICATE\<rparr>]"
  by (simp add: unique_eval)

lemma repeated_group_duplicates:
  "duplicatePhaseErrors [[''id''], [''id'']] [[''id'' \<mapsto> JSString ''1'']] =
     [\<lparr>row = 2, column = ''id'', message = ''Duplicate value found: 1 in rows 2, 2'',
       errorType = DUPLICATE\<rparr>,
      \<lparr>row = 2, column = ''id'', message = ''Duplicate value found: 1 in rows 2, 2'',
       errorType = DUPLICATE\<rparr>]"
  by (simp add: unique_eval)

lemma listedRows_errors:
  "rowPhaseErrors [(''id'', listedRules)] idRows =
     [\<lparr>row = 2, column = ''id'', message = ''Already listed'', errorType = DUPLICATE\<rparr>,
      \<lparr>row = 3, column = ''id'', message = ''Already listed'', errorType = DUPLICATE\<rparr>,
      \<lparr>row = 4, column = ''id'', message = ''Already listed'', errorType = DUPLICATE\<rparr>]"
  by (simp add: rowPhaseErrors_def rowErrors_def cellErrors_def listedRules_def alreadyListed_def
      idRows_def getProp_def trimValue_def ROW_NUMBER_OFFSET_def enumerate_eq_zip upt_rec)

lemma rowPhaseErrors_no_schema: "rowPhaseErrors [] rows = []"
  by (simp add: rowPhaseErrors_def rowErrors_def)

section \<open>Duplicate detection\<close>

lemma duplicatePhaseErrors_columns:
  assumes "e \<in> set (duplicatePhaseErrors unique rows)"
  shows "\<exists>cols \<in> set unique. column e = constraintKey cols"
proof -
  from assms obtain p where p: "p \<in> set (finalUniqueValues unique rows)"
    and e: "e \<in> set (duplicateErrors (fst p) (snd p))"
    by (auto simp: duplicatePhaseErrors_def)
  from p have "fst p \<in> fst ` set (initUniqueValues unique)"
    using finalUniqueValues_keys[of unique rows] by (metis image_eqI set_map)
  then have "fst p \<in> constraintKey ` set unique"
    by (simp add: initUniqueValues_keys)
  with duplicateErrors_type[OF e] show ?thesis by auto
qed

text \<open>
  Claim C2, amended. For the rows \<open>[{id:"1"},{id:"2"},{id:"1"}]\<close> and the groups
  \<open>[["id"]]\<close>, whatever the schema, a run that returns appends to the errors of the rows
  exactly two DUPLICATE errors, for the rows 2 and 4, both with column \<open>id\<close> and the message
  "Duplicate value found: 1 in rows 2, 4", and none for the key "2"; they are the only
  DUPLICATE errors of the run when no error of the rows is typed DUPLICATE, that is when no
  custom validator returns a fragment of that type. In general the errors of a run are the
  errors of the rows followed by DUPLICATE errors that all belong to some group, again the
  only DUPLICATE errors when no error of the rows has that type; and for each group whose
  key (the column names joined by "-", then trimmed) is the key of no other entry of the
  list of groups, the errors with that key as column are, for each composite key in
  first-seen order that more than one row holds, one error per listed row, sharing the
  message built from the key and the comma-joined row numbers.
\<close>

theorem duplicate_errors:
  "(validateData sh cancelAt idRows schema [[''id'']] = Inr st \<longrightarrow>
      errors st = rowPhaseErrors schema idRows @
        [\<lparr>row = 2, column = ''id'', message = ''Duplicate value found: 1 in rows 2, 4'',
          errorType = DUPLICATE\<rparr>,
         \<lparr>row = 4, column = ''id'', message = ''Duplicate value found: 1 in rows 2, 4'',
          errorType = DUPLICATE\<rparr>] \<and>
      ((\<forall>e \<in> set (rowPhaseErrors schema idRows). errorType e \<noteq> DUPLICATE) \<longrightarrow>
         filter (\<lambda>e. errorType e = DUPLICATE) (errors st) =
           [\<lparr>row = 2, column = ''id'', message = ''Duplicate value found: 1 in rows 2, 4'',
             errorType = DUPLICATE\<rparr>,
            \<lparr>row = 4, column = ''id'', message = ''Duplicate value found: 1 in rows 2, 4'',
             errorType = DUPLICATE\<rparr>])) \<and>
   (validateData sh' cancelAt' rows schema' unique = Inr st' \<longrightarrow>
      (\<exists>D. errors st' = rowPhaseErrors schema' rows @ D \<and>
           (\<forall>e \<in> set D. errorType e = DUPLICATE \<and>
                          (\<exists>cols \<in> set unique. column e = constraintKey cols)) \<and>
           ((\<forall>e \<in> set (rowPhaseErrors schema' rows). errorType e \<noteq> DUPLICATE) \<longrightarrow>
              filter (\<lambda>e. errorType e = DUPLICATE) (errors st') = D) \<and>
           (\<forall>cols. filter (\<lambda>c. constraintKey c = constraintKey cols) unique = [cols] \<longrightarrow>
              filter (\<lambda>e. column e = constraintKey cols) D = groupDuplicates cols rows)))"
proof -
  have general: "\<exists>D. errors s = rowPhaseErrors sch rws @ D \<and>
           (\<forall>e \<in> set D. errorType e = DUPLICATE \<and>
                          (\<exists>cols \<in> set un. column e = constraintKey cols)) \<and>
           ((\<forall>e \<in> set (rowPhaseErrors sch rws). errorType e \<noteq> DUPLICATE) \<longrightarrow>
              filter (\<lambda>e. errorType e = DUPLICATE) (errors s) = D) \<and>
           (\<forall>cols. filter (\<lambda>c. constraintKey c = constraintKey cols) un = [cols] \<longrightarrow>
              filter (\<lambda>e. column e = constraintKey cols) D = groupDuplicates cols rws) \<and>
           D = duplicatePhaseErrors un rws"
    if run: "validateData h ca rws sch un = Inr s" for h ca rws sch un s
  proof -
    let ?D = "duplicatePhaseErrors un rws"
    have e: "errors s = rowPhaseErrors sch rws @ ?D"
      by (rule validateData_Inr(1)[OF run])
    have t: "\<forall>e \<in> set ?D. errorType e = DUPLICATE \<and>
                          (\<exists>cols \<in> set un. column e = constraintKey cols)"
      using duplicatePhaseErrors_type duplicatePhaseErrors_columns by blast
    have f: "filter (\<lambda>e. errorType e = DUPLICATE) (errors s) = ?D"
      if "\<forall>e \<in> set (rowPhaseErrors sch rws). errorType e \<noteq> DUPLICATE"
    proof -
      have "filter (\<lambda>e. errorType e = DUPLICATE) (rowPhaseErrors sch rws) = []"
        using that by (simp add: filter_empty_conv)
      moreover have "filter (\<lambda>e. errorType e = DUPLICATE) ?D = ?D"
        using t by (simp add: filter_id_conv)
      ultimately show ?thesis by (simp add: e)
    qed
    have g: "\<forall>cols. filter (\<lambda>c. constraintKey c = constraintKey cols) un = [cols] \<longrightarrow>
              filter (\<lambda>e. column e = constraintKey cols) ?D = groupDuplicates cols rws"
      using duplicatePhaseErrors_group by blast
    from e t f g show ?thesis by blast
  qed
  show ?thesis
  proof (intro conjI impI)
    assume run: "validateData sh cancelAt idRows schema [[''id'']] = Inr st"
    from general[OF run] show "errors st = rowPhaseErrors schema idRows @
        [\<lparr>row = 2, column = ''id'', message = ''Duplicate value found: 1 in rows 2, 4'',
          errorType = DUPLICATE\<rparr>,
         \<lparr>row = 4, column = ''id'', message = ''Duplicate value found: 1 in rows 2, 4'',
          errorType = DUPLICATE\<rparr>]"
      by (auto simp: idRows_duplicates)
    assume "\<forall>e \<in> set (rowPhaseErrors schema idRows). errorType e \<noteq> DUPLICATE"
    with general[OF run] show "filter (\<lambda>e. errorType e = DUPLICATE) (errors st) =
           [\<lparr>row = 2, column = ''id'', message = ''Duplicate value found: 1 in rows 2, 4'',
             errorType = DUPLICATE\<rparr>,
            \<lparr>row = 4, column = ''id'', message = ''Duplicate value found: 1 in rows 2, 4'',
             errorType = DUPLICATE\<rparr>]"
      by (auto simp: idRows_duplicates)
  next
    assume run: "validateData sh' cancelAt' rows schema' unique = Inr st'"
    from general[OF run] show "\<exists>D. errors st' = rowPhaseErrors schema' rows @ D \<and>
           (\<forall>e \<in> set D. errorType e = DUPLICATE \<and>
                          (\<exists>cols \<in> set unique. column e = constraintKey cols)) \<and>
           ((\<forall>e \<in> set (rowPhaseErrors schema' rows). errorType e \<noteq> DUPLICATE) \<longrightarrow>
              filter (\<lambda>e. errorType e = DUPLICATE) (errors st') = D) \<and>
           (\<forall>cols. filter (\<lambda>c. constraintKey c = constraintKey cols) unique = [cols] \<longrightarrow>
              filter (\<lambda>e. column e = constraintKey cols) D = groupDuplicates cols rows)"
      by blast
  qed
qed

text \<open>
  The theorem at the rows of the claim, without a schema, and at the groups
  \<open>[["a"],["id"],["a"]]\<close>: the key of \<open>["id"]\<close> is that of no other entry, though two other
  entries share theirs.
\<close>

theorem duplicate_errors_witness:
  "\<exists>st st'. validateData idleCells (\<lambda>k. False) idRows [] [[''id'']] = Inr st \<and>
        (\<forall>e \<in> set (rowPhaseErrors [] idRows). errorType e \<noteq> DUPLICATE) \<and>
        filter (\<lambda>e. errorType e = DUPLICATE) (errors st) =
          [\<lparr>row = 2, column = ''id'', message = ''Duplicate value found: 1 in rows 2, 4'',
            errorType = DUPLICATE\<rparr>,
           \<lparr>row = 4, column = ''id'', message = ''Duplicate value found: 1 in rows 2, 4'',
            errorType = DUPLICATE\<rparr>] \<and>
        validateData idleCells (\<lambda>k. False) idRows [] [[''a''], [''id''], [''a'']] = Inr st' \<and>
        filter (\<lambda>c. constraintKey c = constraintKey [''id'']) [[''a''], [''id''], [''a'']]
          = [[''id'']] \<and>
        filter (\<lambda>e. column e = constraintKey [''id'']) (errors st') = groupDuplicates [''id''] idRows \<and>
        groupDuplicates [''id''] idRows =
          [\<lparr>row = 2, column = ''id'', message = ''Duplicate value found: 1 in rows 2, 4'',
            errorType = DUPLICATE\<rparr>,
           \<lparr>row = 4, column = ''id'', message = ''Duplicate value found: 1 in rows 2, 4'',
            errorType = DUPLICATE\<rparr>]"
proof -
  obtain st where st: "validateData idleCells (\<lambda>k. False) idRows [] [[''id'']] = Inr st"
    using validateData_returns[where cancelAt = "\<lambda>k. False"] by blast
  obtain st' where st': "validateData idleCells (\<lambda>k. False) idRows []
      [[''a''], [''id''], [''a'']] = Inr st'"
    using validateData_returns[where cancelAt = "\<lambda>k. False"] by blast
  note inst = duplicate_errors[where sh = idleCells and cancelAt = "\<lambda>k. False" and schema = "[]"
      and st = st and sh' = idleCells and cancelAt' = "\<lambda>k. False" and rows = idRows
      and schema' = "[]" and unique = "[[''a''], [''id''], [''a'']]" and st' = st']
  have n: "\<forall>e \<in> set (rowPhaseErrors [] idRows). errorType e \<noteq> DUPLICATE"
    by (simp add: rowPhaseErrors_no_schema)
  have k: "filter (\<lambda>c. constraintKey c = constraintKey [''id'']) [[''a''], [''id''], [''a'']]
      = [[''id'']]"
    by (simp add: constraintKey_def trim_def isWhiteSpace_def)
  from inst st n have e: "filter (\<lambda>e. errorType e = DUPLICATE) (errors st) =
          [\<lparr>row = 2, column = ''id'', message = ''Duplicate value found: 1 in rows 2, 4'',
            errorType = DUPLICATE\<rparr>,
           \<lparr>row = 4, column = ''id'', message = ''Duplicate value found: 1 in rows 2, 4'',
            errorType = DUPLICATE\<rparr>]"
    by blast
  from inst st' obtain D where D: "errors st' = rowPhaseErrors [] idRows @ D"
    and "\<forall>cols. filter (\<lambda>c. constraintKey c = constraintKey cols) [[''a''], [''id''], [''a'']] = [cols]
           \<longrightarrow> filter (\<lambda>e. column e = constraintKey cols) D = groupDuplicates cols idRows"
    by blast
  with k have "filter (\<lambda>e. column e = constraintKey [''id'']) D = groupDuplicates [''id''] idRows"
    by blast
  with D have f: "filter (\<lambda>e. column e = constraintKey [''id'']) (errors st')
      = groupDuplicates [''id''] idRows"
    by (simp add: rowPhaseErrors_no_schema)
  have g: "groupDuplicates [''id''] idRows =
          [\<lparr>row = 2, column = ''id'', message = ''Duplicate value found: 1 in rows 2, 4'',
            errorType = DUPLICATE\<rparr>,
           \<lparr>row = 4, column = ''id'', message = ''Duplicate value found: 1 in rows 2, 4'',
            errorType = DUPLICATE\<rparr>]"
    using duplicatePhaseErrors_group[of "[''id'']" "[[''id'']]" idRows]
      duplicatePhaseErrors_columns[of _ "[[''id'']]" idRows]
    by (simp add: idRows_duplicates constraintKey_def trim_def isWhiteSpace_def)
  from st st' n k e f g show ?thesis by blast
qed

text \<open>
  Claim C2 as stated fails. In its general part: for the group \<open>[" id"]\<close> the column of
  the errors is the trimmed key \<open>id\<close>, not the joined column names; and two groups with the
  same key share one table, so that for \<open>[["id"],["id"]]\<close> a key held by a single row is
  reported, with the row listed twice. In its example: with a schema whose custom validator
  returns a fragment typed DUPLICATE for every value, the run over the three rows has five
  DUPLICATE errors, three of the rows and the two of the resolution.
\<close>

theorem duplicate_errors_counterexample:
  "joinStrings ''-'' ['' id''] = '' id'' \<and>
   (\<exists>st. validateData idleCells (\<lambda>k. False)
           [['' id'' \<mapsto> JSString ''7''], ['' id'' \<mapsto> JSString ''7'']] [] [['' id'']] = Inr st \<and>
         map column (errors st) = [''id'', ''id'']) \<and>
   (\<exists>st. validateData idleCells (\<lambda>k. False) [[''id'' \<mapsto> JSString ''1'']] []
           [[''id''], [''id'']] = Inr st \<and>
         errors st =
           [\<lparr>row = 2, column = ''id'', message = ''Duplicate value found: 1 in rows 2, 2'',
             errorType = DUPLICATE\<rparr>,
            \<lparr>row = 2, column = ''id'', message = ''Duplicate value found: 1 in rows 2, 2'',
             errorType = DUPLICATE\<rparr>]) \<and>
   (\<exists>st. validateData idleCells (\<lambda>k. False) idRows [(''id'', listedRules)] [[''id'']] = Inr st \<and>
         length (filter (\<lambda>e. errorType e = DUPLICATE) (errors st)) = 5 \<and>
         map row (errors st) = [2, 3, 4, 2, 4])"
proof -
  obtain st1 where st1: "validateData idleCells (\<lambda>k. False)
      [['' id'' \<mapsto> JSString ''7''], ['' id'' \<mapsto> JSString ''7'']] [] [['' id'']] = Inr st1"
    using validateData_returns[where cancelAt = "\<lambda>k. False"] by blast
  obtain st2 where st2: "validateData idleCells (\<lambda>k. False) [[''id'' \<mapsto> JSString ''1'']] []
      [[''id''], [''id'']] = Inr st2"
    using validateData_returns[where cancelAt = "\<lambda>k. False"] by blast
  obtain st3 where st3: "validateData idleCells (\<lambda>k. False) idRows [(''id'', listedRules)]
      [[''id'']] = Inr st3"
    using validateData_returns[where cancelAt = "\<lambda>k. False"] by blast
  have "map column (errors st1) = [''id'', ''id'']"
    by (simp add: validateData_Inr(1)[OF st1] rowPhaseErrors_no_schema spaced_key_duplicates)
  moreover have "errors st2 =
           [\<lparr>row = 2, column = ''id'', message = ''Duplicate value found: 1 in rows 2, 2'',
             errorType = DUPLICATE\<rparr>,
            \<lparr>row = 2, column = ''id'', message = ''Duplicate value found: 1 in rows 2, 2'',
             errorType = DUPLICATE\<rparr>]"
    by (simp add: validateData_Inr(1)[OF st2] rowPhaseErrors_no_schema repeated_group_duplicates)
  moreover have "length (filter (\<lambda>e. errorType e = DUPLICATE) (errors st3)) = 5 \<and>
         map row (errors st3) = [2, 3, 4, 2, 4]"
    by (simp add: validateData_Inr(1)[OF st3] idRows_duplicates listedRows_errors)
  ultimately show ?thesis using st1 st2 st3 by auto
qed

section \<open>Independence of the groups\<close>

text \<open>
  Claim C8 asks that the DUPLICATE errors of a group be those of a run with that group
  alone. The tables of \<^verbatim>\<open>uniqueValues\<close> are stored under the joined column names, so
  the groups \<open>["emp","id"]\<close> and \<open>["emp-id"]\<close> share one table. Neither group alone finds a
  duplicate in \<open>staffRows\<close>; together they report the rows 2 and 3.
\<close>

theorem groups_share_a_table:
  "(\<exists>st. validateData idleCells (\<lambda>k. False) staffRows [] [[''emp'', ''id'']] = Inr st \<and>
         errors st = []) \<and>
   (\<exists>st. validateData idleCells (\<lambda>k. False) staffRows [] [[''emp-id'']] = Inr st \<and>
         errors st = []) \<and>
   (\<exists>st. validateData idleCells (\<lambda>k. False) staffRows [] [[''emp'', ''id''], [''emp-id'']] = Inr st \<and>
         errors st =
           [\<lparr>row = 2, column = ''emp-id'', message = ''Duplicate value found: 7-1 in rows 2, 3'',
             errorType = DUPLICATE\<rparr>,
            \<lparr>row = 3, column = ''emp-id'', message = ''Duplicate value found: 7-1 in rows 2, 3'',
             errorType = DUPLICATE\<rparr>])"
proof -
  have run: "\<exists>st. validateData idleCells (\<lambda>k. False) staffRows [] unique = Inr st \<and>
                  errors st = duplicatePhaseErrors unique staffRows" for unique
  proof -
    obtain st where st: "validateData idleCells (\<lambda>k. False) staffRows [] unique = Inr st"
      using validateData_returns[where cancelAt = "\<lambda>k. False"] by blast
    then show ?thesis
      by (auto simp: validateData_Inr(1)[OF st] rowPhaseErrors_no_schema)
  qed
  show ?thesis
    using run[of "[[''emp'', ''id'']]"] run[of "[[''emp-id'']]"]
      run[of "[[''emp'', ''id''], [''emp-id'']]"]
    by (simp add: staffRows_alone staffRows_together)
qed

section \<open>Progress\<close>

text \<open>
  The leading bit, the binary exponent, and the monotonicity of rounding to a double.
\<close>

lemma floorLog2_bounds: "0 < n \<Longrightarrow> 2 ^ floorLog2 n \<le> n \<and> n < 2 ^ Suc (floorLog2 n)"
proof (induction n rule: floorLog2.induct)
  case (1 n)
  show ?case
  proof (cases "n < 2")
    case True
    with 1(2) have "n = 1" by simp
    then show ?thesis by (simp add: floorLog2.simps)
  next
    case False
    then have pos: "0 < n div 2" by simp
    from 1(1)[OF False pos] have a: "2 ^ floorLog2 (n div 2) \<le> n div 2"
      and b: "n div 2 < 2 ^ Suc (floorLog2 (n div 2))" by simp_all
    have f: "floorLog2 n = Suc (floorLog2 (n div 2))"
      using False by (subst floorLog2.simps) simp
    from a have "2 * 2 ^ floorLog2 (n div 2) \<le> n" by linarith
    moreover from b have "n < 2 * 2 ^ Suc (floorLog2 (n div 2))" by linarith
    ultimately show ?thesis by (simp add: f)
  qed
qed

lemma exponent_bounds:
  assumes "0 < x"
  shows "2 powi exponent x \<le> x" and "x < 2 powi (exponent x + 1)"
proof -
  have "2 powi exponent x \<le> x \<and> x < 2 powi (exponent x + 1)"
  proof (cases "1 \<le> x")
    case True
    define n where "n = nat \<lfloor>x\<rfloor>"
    have n: "0 < n" "rat_of_nat n \<le> x" "x < rat_of_nat n + 1"
      using True by (simp_all add: n_def) linarith+
    have e: "exponent x = int (floorLog2 n)"
      using True by (simp add: exponent_def n_def)
    from floorLog2_bounds[OF n(1)] have a: "2 ^ floorLog2 n \<le> n"
      and b: "n + 1 \<le> 2 ^ Suc (floorLog2 n)" by simp_all
    have "(2::rat) ^ floorLog2 n \<le> rat_of_nat n"
      unfolding numeral_power_le_of_nat_cancel_iff by (rule a)
    then have l: "(2::rat) ^ floorLog2 n \<le> x" using n(2) by (rule order_trans)
    have "rat_of_nat (n + 1) \<le> 2 ^ Suc (floorLog2 n)"
      unfolding of_nat_le_numeral_power_cancel_iff by (rule b)
    then have u: "x < (2::rat) ^ Suc (floorLog2 n)" using n(3) by simp
    have "exponent x + 1 = int (Suc (floorLog2 n))" by (simp add: e)
    then have "(2::rat) powi (exponent x + 1) = 2 ^ Suc (floorLog2 n)"
      by (simp only: power_int_of_nat)
    with l u show ?thesis by (simp add: e)
  next
    case False
    define y where "y = 1 / x"
    define m where "m = nat \<lceil>y\<rceil>"
    define f where "f = floorLog2 (m - 1)"
    have y: "1 < y" using False assms by (simp add: y_def)
    then have c: "2 \<le> \<lceil>y\<rceil>" by linarith
    have m2: "2 \<le> m" unfolding m_def using c by linarith
    have mc: "rat_of_nat m = of_int \<lceil>y\<rceil>"
      unfolding m_def using c by (intro of_nat_nat) linarith
    have m1: "rat_of_nat (m - 1) = rat_of_nat m - 1"
      using m2 by (simp add: of_nat_diff)
    have m: "2 \<le> m" "y \<le> rat_of_nat m" "rat_of_nat (m - 1) < y"
    proof -
      show "2 \<le> m" by (rule m2)
      show "y \<le> rat_of_nat m" unfolding mc by (rule le_of_int_ceiling)
      show "rat_of_nat (m - 1) < y" unfolding m1 mc by linarith
    qed
    have e: "exponent x = - int (Suc f)"
      using False by (simp add: exponent_def f_def m_def y_def)
    from m(1) have "0 < m - 1" by simp
    from floorLog2_bounds[OF this] have a: "2 ^ f \<le> m - 1"
      and b': "m - 1 < 2 ^ Suc f" unfolding f_def by blast+
    from b' have b: "m \<le> 2 ^ Suc f" by linarith
    have "(2::rat) ^ f \<le> rat_of_nat (m - 1)"
      unfolding numeral_power_le_of_nat_cancel_iff by (rule a)
    then have l: "(2::rat) ^ f < y" using m(3) by (rule le_less_trans)
    have "rat_of_nat m \<le> 2 ^ Suc f"
      unfolding of_nat_le_numeral_power_cancel_iff by (rule b)
    with m(2) have u: "y \<le> (2::rat) ^ Suc f" by (rule order_trans)
    have p1: "(2::rat) powi exponent x = 1 / 2 ^ Suc f"
      unfolding e by (simp only: power_int_minus_divide power_int_of_nat)
    have "exponent x + 1 = - int f" by (simp add: e)
    then have p2: "(2::rat) powi (exponent x + 1) = 1 / 2 ^ f"
      by (simp only: power_int_minus_divide power_int_of_nat)
    have x: "x = 1 / y" by (simp add: y_def)
    have y0: "0 < y" using y by simp
    have "1 / 2 ^ Suc f \<le> 1 / y"
      using u y0 by (intro divide_left_mono) simp_all
    moreover have "1 / y < 1 / 2 ^ f"
      using l y0 by (intro divide_strict_left_mono) simp_all
    ultimately show ?thesis unfolding p1 p2 by (simp add: x)
  qed
  then show "2 powi exponent x \<le> x" and "x < 2 powi (exponent x + 1)" by simp_all
qed

lemma exponent_unique:
  assumes "2 powi e \<le> x" and "x < 2 powi (e + 1)"
  shows "exponent x = e"
proof -
  have x: "0 < x"
    using assms(1) zero_less_power_int[of "2::rat" e] by linarith
  note b = exponent_bounds[OF x]
  have "(2::rat) powi e < 2 powi (exponent x + 1)" using assms(1) b(2) by simp
  then have 1: "e < exponent x + 1"
    by (metis not_less power_int_increasing one_le_numeral)
  have "(2::rat) powi exponent x < 2 powi (e + 1)" using assms(2) b(1) by simp
  then have 2: "exponent x < e + 1"
    by (metis not_less power_int_increasing one_le_numeral)
  from 1 2 show ?thesis by simp
qed

lemma exponent_mono:
  assumes "0 < x" and "x \<le> y"
  shows "exponent x \<le> exponent y"
proof -
  have y: "0 < y" using assms by simp
  have "(2::rat) powi exponent x < 2 powi (exponent y + 1)"
    using exponent_bounds(1)[OF assms(1)] exponent_bounds(2)[OF y] assms(2) by simp
  then have "exponent x < exponent y + 1"
    by (metis not_less power_int_increasing one_le_numeral)
  then show ?thesis by simp
qed

lemma roundTiesToEven_of_int: "roundTiesToEven (of_int n) = n"
  by (simp add: roundTiesToEven_def)

lemma roundTiesToEven_bounds:
  "\<lfloor>q\<rfloor> \<le> roundTiesToEven q" "roundTiesToEven q \<le> \<lfloor>q\<rfloor> + 1"
  by (simp_all add: roundTiesToEven_def Let_def)

lemma roundTiesToEven_mono:
  assumes "p \<le> q"
  shows "roundTiesToEven p \<le> roundTiesToEven q"
proof (cases "\<lfloor>p\<rfloor> = \<lfloor>q\<rfloor>")
  case True
  from assms have "p - of_int \<lfloor>q\<rfloor> \<le> q - of_int \<lfloor>q\<rfloor>" by simp
  then show ?thesis unfolding roundTiesToEven_def Let_def True by auto
next
  case False
  with floor_mono[OF assms] have "\<lfloor>p\<rfloor> + 1 \<le> \<lfloor>q\<rfloor>" by simp
  with roundTiesToEven_bounds(2)[of p] roundTiesToEven_bounds(1)[of q]
  show ?thesis by linarith
qed

lemma binary64_pos:
  "0 < x \<Longrightarrow> binary64 x =
     of_int (roundTiesToEven (x / 2 powi (exponent x - 52))) * 2 powi (exponent x - 52)"
  by (simp add: binary64_def Let_def)

lemma binary64_range:
  assumes "0 < x"
  shows "2 powi exponent x \<le> binary64 x" and "binary64 x \<le> 2 powi (exponent x + 1)"
proof -
  define e where "e = exponent x"
  define u :: rat where "u = 2 powi (e - 52)"
  have u: "0 < u" by (simp add: u_def)
  have lo: "(2::rat) powi e = of_int (2 ^ 52) * u"
    using power_int_add[of "2::rat" 52 "e - 52"] by (simp add: u_def)
  have hi: "(2::rat) powi (e + 1) = of_int (2 ^ 53) * u"
    using power_int_add[of "2::rat" 53 "e - 52"] by (simp add: u_def add.commute)
  have b: "binary64 x = of_int (roundTiesToEven (x / u)) * u"
    using binary64_pos[OF assms] by (simp add: u_def e_def)
  have "of_int (2 ^ 52) * u \<le> x"
    using exponent_bounds(1)[OF assms] by (simp only: lo[symmetric] e_def)
  then have "of_int (2 ^ 52) \<le> x / u" using u by (simp add: pos_le_divide_eq)
  from roundTiesToEven_mono[OF this] have "2 ^ 52 \<le> roundTiesToEven (x / u)"
    by (simp only: roundTiesToEven_of_int)
  then have "rat_of_int (2 ^ 52) \<le> of_int (roundTiesToEven (x / u))"
    by (simp only: of_int_le_iff)
  then have "of_int (2 ^ 52) * u \<le> of_int (roundTiesToEven (x / u)) * u"
    using u by (intro mult_right_mono) simp_all
  then show "2 powi exponent x \<le> binary64 x"
    by (simp only: lo[symmetric] b e_def[symmetric])
  have "x \<le> of_int (2 ^ 53) * u"
    using exponent_bounds(2)[OF assms] by (simp only: hi[symmetric] e_def less_imp_le)
  then have "x / u \<le> of_int (2 ^ 53)" using u by (simp add: pos_divide_le_eq)
  from roundTiesToEven_mono[OF this] have "roundTiesToEven (x / u) \<le> 2 ^ 53"
    by (simp only: roundTiesToEven_of_int)
  then have "of_int (roundTiesToEven (x / u)) \<le> rat_of_int (2 ^ 53)"
    by (simp only: of_int_le_iff)
  then have "of_int (roundTiesToEven (x / u)) * u \<le> of_int (2 ^ 53) * u"
    using u by (intro mult_right_mono) simp_all
  then show "binary64 x \<le> 2 powi (exponent x + 1)"
    by (simp only: hi[symmetric] b e_def[symmetric])
qed

lemma binary64_nonneg: "0 \<le> x \<Longrightarrow> 0 \<le> binary64 x"
proof (cases "x = 0")
  case True
  then show ?thesis by (simp add: binary64_def)
next
  case False
  assume "0 \<le> x"
  with False have x: "0 < x" by simp
  have "(0::rat) \<le> 2 powi exponent x" by simp
  with binary64_range(1)[OF x] show ?thesis by linarith
qed

lemma binary64_mono:
  assumes "0 \<le> x" and "x \<le> y"
  shows "binary64 x \<le> binary64 y"
proof (cases "x = 0")
  case True
  from assms have "0 \<le> y" by simp
  from binary64_nonneg[OF this] show ?thesis by (simp add: True binary64_def)
next
  case False
  with assms have x: "0 < x" and y: "0 < y" by simp_all
  show ?thesis
  proof (cases "exponent x = exponent y")
    case True
    define u :: rat where "u = 2 powi (exponent y - 52)"
    have u: "0 < u" by (simp add: u_def)
    have "x / u \<le> y / u" using assms(2) u by (simp add: divide_right_mono)
    from roundTiesToEven_mono[OF this]
    have "rat_of_int (roundTiesToEven (x / u)) \<le> of_int (roundTiesToEven (y / u))"
      by (simp only: of_int_le_iff)
    then have "of_int (roundTiesToEven (x / u)) * u \<le> of_int (roundTiesToEven (y / u)) * u"
      using u by (intro mult_right_mono) simp_all
    then show ?thesis
      by (simp only: binary64_pos[OF x] binary64_pos[OF y] True u_def)
  next
    case False
    with exponent_mono[OF x assms(2)] have "exponent x + 1 \<le> exponent y" by simp
    then have "(2::rat) powi (exponent x + 1) \<le> 2 powi exponent y"
      by (intro power_int_increasing) simp_all
    with binary64_range(2)[OF x] binary64_range(1)[OF y] show ?thesis by linarith
  qed
qed

lemma binary64_exact: "binary64 0 = 0" "binary64 1 = 1" "binary64 100 = 100"
  by code_simp+

lemma getProgress_zero: "getProgress 0 T = 0"
  by (simp add: getProgress_def binary64_exact)

lemma getProgress_full: "0 < T \<Longrightarrow> getProgress T T = 100"
  by (simp add: getProgress_def binary64_exact)

lemma getProgress_mono: "k \<le> k' \<Longrightarrow> getProgress k T \<le> getProgress k' T"
proof -
  assume kk: "k \<le> k'"
  have q0: "(0::rat) \<le> of_nat k / of_nat T" by simp
  have "(of_nat k / of_nat T :: rat) \<le> of_nat k' / of_nat T"
    using kk by (intro divide_right_mono) simp_all
  from binary64_mono[OF q0 this]
  have "binary64 (of_nat k / of_nat T) * 100 \<le> binary64 (of_nat k' / of_nat T) * 100"
    by simp
  moreover have "0 \<le> binary64 (of_nat k / of_nat T) * 100"
    using binary64_nonneg[OF q0] by simp
  ultimately have "binary64 (binary64 (of_nat k / of_nat T) * 100)
      \<le> binary64 (binary64 (of_nat k' / of_nat T) * 100)"
    by (intro binary64_mono)
  then show ?thesis unfolding getProgress_def by (intro nat_mono round_mono)
qed

lemma getProgress_examples:
  "getProgress 23 40 = 57" "getProgress 29 200 = 14" "getProgress 1 3 = 33" "getProgress 2 3 = 67"
  by code_simp+

lemma sorted_progress: "sorted (map (\<lambda>k. getProgress (Suc k) T) [0..<n])"
proof -
  have "sorted_wrt (\<lambda>x y. getProgress (Suc x) T \<le> getProgress (Suc y) T) [0..<n]"
    by (rule sorted_wrt_mono_rel[of _ "(\<le>)"]) (auto intro: getProgress_mono)
  then show ?thesis by (simp add: sorted_map)
qed

text \<open>
  Claim C3, amended. Take a run that returns, over \<open>N\<close> rows and \<open>M\<close> groups whose keys
  are pairwise distinct, with \<open>N + M > 0\<close>. The run completes \<open>N + M\<close> steps; the values
  written to the progress cell, the reset at entry followed by the value found at each
  yield point, are \<open>N + M + 1\<close> values, that is \<open>N + M\<close> increments; the value after
  \<open>k\<close> completed steps is the rounded percentage of \<open>k\<close> in \<open>N + M\<close>, as the program
  computes it in double-precision arithmetic (\<^const>\<open>getProgress\<close>); the sequence is
  non-decreasing, starts from 0 and ends at 100.
\<close>

theorem progress_sequence:
  assumes "validateData sh cancelAt rows schema unique = Inr st"
    and "distinct (map constraintKey unique)"
    and "0 < length rows + length unique"
  shows "completedSteps st = length rows + length unique \<and>
         length (progressLog st) = Suc (length rows + length unique) \<and>
         (\<forall>k \<le> length rows + length unique.
            progressLog st ! k = getProgress k (length rows + length unique)) \<and>
         sorted (progressLog st) \<and> hd (progressLog st) = 0 \<and> last (progressLog st) = 100"
proof -
  let ?T = "length rows + length unique"
  have len: "length (finalUniqueValues unique rows) = length unique"
    by (simp add: length_finalUniqueValues initUniqueValues_length[OF assms(2)])
  have log: "progressLog st = 0 # map (\<lambda>k. getProgress (Suc k) ?T) [0..<?T]"
    by (simp only: validateData_Inr(5)[OF assms(1)] len)
  have nth: "progressLog st ! k = getProgress k ?T" if "k \<le> ?T" for k
    using that by (cases k) (simp_all add: log getProgress_zero del: upt_Suc)
  have "last (progressLog st) = progressLog st ! ?T"
    by (simp add: log last_conv_nth del: upt_Suc)
  then have last: "last (progressLog st) = 100"
    using assms(3) by (simp only: nth[OF order_refl] getProgress_full)
  have "sorted (progressLog st)"
    unfolding log using sorted_progress[of ?T "?T"] by simp
  with nth last show ?thesis by (simp add: log validateData_Inr(4)[OF assms(1)] len)
qed

theorem progress_sequence_witness:
  "\<exists>st. validateData idleCells (\<lambda>k. False) idRows [] [[''id'']] = Inr st \<and>
        completedSteps st = 4 \<and>
        length (progressLog st) = 5 \<and> progressLog st ! 0 = 0 \<and> progressLog st ! 1 = 25 \<and>
        progressLog st ! 2 = 50 \<and> progressLog st ! 3 = 75 \<and> progressLog st ! 4 = 100 \<and>
        sorted (progressLog st) \<and> last (progressLog st) = 100"
proof -
  obtain st where st: "validateData idleCells (\<lambda>k. False) idRows [] [[''id'']] = Inr st"
    using validateData_returns[where cancelAt = "\<lambda>k. False"] by blast
  have g: "getProgress 0 4 = 0" "getProgress 1 4 = 25" "getProgress 2 4 = 50"
    "getProgress 3 4 = 75" "getProgress 4 4 = 100"
    by code_simp+
  have n: "length idRows + length [[''id'']] = 4" by (simp add: idRows_def)
  from progress_sequence[OF st] n
  have "completedSteps st = 4" and "length (progressLog st) = 5"
    and nth: "\<forall>k \<le> 4. progressLog st ! k = getProgress k 4"
    and "sorted (progressLog st)" and "last (progressLog st) = 100"
    by simp_all
  with g st show ?thesis by auto
qed

text \<open>
  Claim C3 as stated fails for a run over no rows and no groups: no step is ever
  completed, the only value written is the reset to 0, and 100 is never reached. It also
  fails when two groups have the same key: for one row and the groups \<open>[["id"],["id"]]\<close>
  there are three steps to count but only two are completed, and the progress ends at 67.
  And the value written is the percentage as rounded in double-precision arithmetic, not
  the rounded exact percentage: after 23 of 40 rows it is 57, where 57.5 rounds to 58.
\<close>

theorem progress_sequence_counterexample:
  "(\<exists>st. validateData idleCells (\<lambda>k. False) [] [] [] = Inr st \<and>
         progressLog st = [0] \<and> last (progressLog st) \<noteq> 100) \<and>
   (\<exists>st. validateData idleCells (\<lambda>k. False) [[''id'' \<mapsto> JSString ''1'']] []
           [[''id''], [''id'']] = Inr st \<and>
         progressLog st = [0, 33, 67]) \<and>
   (\<exists>st. validateData idleCells (\<lambda>k. False) (replicate 40 Map.empty) [] [] = Inr st \<and>
         progressLog st ! 23 = 57 \<and> nat (round ((23 / 40 :: rat) * 100)) = 58)"
proof -
  obtain st where st: "validateData idleCells (\<lambda>k. False) [] [] [] = Inr st"
    using validateData_returns[where cancelAt = "\<lambda>k. False"] by blast
  have 1: "progressLog st = [0]"
    by (simp add: validateData_Inr(5)[OF st] finalUniqueValues_Nil)
  obtain st2 where st2: "validateData idleCells (\<lambda>k. False) [[''id'' \<mapsto> JSString ''1'']] []
      [[''id''], [''id'']] = Inr st2"
    using validateData_returns[where cancelAt = "\<lambda>k. False"] by blast
  have l: "length (finalUniqueValues [[''id''], [''id'']] [[''id'' \<mapsto> JSString ''1'']]) = 1"
    by (simp add: length_finalUniqueValues unique_eval)
  have g: "getProgress (Suc 0) (Suc (Suc (Suc 0))) = 33"
    "getProgress (Suc (Suc 0)) (Suc (Suc (Suc 0))) = 67"
    by code_simp+
  have 2: "progressLog st2 = [0, 33, 67]"
    by (simp add: validateData_Inr(5)[OF st2] l g upt_rec)
  obtain st3 where st3: "validateData idleCells (\<lambda>k. False) (replicate 40 Map.empty) [] [] = Inr st3"
    using validateData_returns[where cancelAt = "\<lambda>k. False"] by blast
  have g57: "getProgress 23 40 = 57" "nat (round ((23 / 40 :: rat) * 100)) = 58"
    by code_simp+
  have "progressLog st3 ! 23 = getProgress 23 40"
    by (simp add: validateData_Inr(5)[OF st3] finalUniqueValues_Nil del: upt_Suc)
  with g57 have 3: "progressLog st3 ! 23 = 57 \<and> nat (round ((23 / 40 :: rat) * 100)) = 58"
    by simp
  from st 1 have a: "\<exists>st. validateData idleCells (\<lambda>k. False) [] [] [] = Inr st \<and>
         progressLog st = [0] \<and> last (progressLog st) \<noteq> 100"
    by auto
  from st2 2 have b: "\<exists>st. validateData idleCells (\<lambda>k. False) [[''id'' \<mapsto> JSString ''1'']] []
           [[''id''], [''id'']] = Inr st \<and> progressLog st = [0, 33, 67]"
    by blast
  from st3 3 have c: "\<exists>st. validateData idleCells (\<lambda>k. False) (replicate 40 Map.empty) [] []
           = Inr st \<and> progressLog st ! 23 = 57 \<and> nat (round ((23 / 40 :: rat) * 100)) = 58"
    by blast
  from a b c show ?thesis by (intro conjI)
qed

section \<open>The file-level orchestrator\<close>




declare rowLoopCells.simps(2) [simp del]



lemma uniqueLoopCells_Cons:
  "uniqueLoopCells cancelAt T (p # rest) st =
     (if isValidationCancelled (cells st) then cells st
      else uniqueLoopCells cancelAt T rest (updateProgress cancelAt T (dupBody p st)))"
  by (cases p) (simp add: dupBody_def Let_def)

lemma uniqueLoop_Cons:
  "uniqueLoop cancelAt T (p # rest) st =
     (if isValidationCancelled (cells st) then Inl (ValidationCancellationError (errors st))
      else uniqueLoop cancelAt T rest (updateProgress cancelAt T (dupBody p st)))"
  by (cases p) (simp add: dupBody_def Let_def uniqueLoop.simps(2))

declare uniqueLoopCells.simps(2) [simp del]


lemma uniqueLoop_cells_Inr:
  "uniqueLoop cancelAt T entries st = Inr st' \<Longrightarrow>
     uniqueLoopCells cancelAt T entries st = cells st'"
proof (induction entries arbitrary: st)
  case Nil
  then show ?case by simp
next
  case (Cons p rest)
  from Cons.prems have nc: "\<not> isValidationCancelled (cells st)"
    and r: "uniqueLoop cancelAt T rest (updateProgress cancelAt T (dupBody p st)) = Inr st'"
    by (auto simp: uniqueLoop_Cons split: if_splits)
  from Cons.IH[OF r] nc show ?case
    by (simp only: uniqueLoopCells_Cons if_False)
qed


lemma validateDataCells_Inr:
  assumes "validateData sh cancelAt rows schema unique = Inr st"
  shows "validateDataCells sh cancelAt rows schema unique = cells st"
proof -
  from validateData_loops[OF assms] obtain st1 where
    r: "rowLoop cancelAt (length rows + length unique) schema unique 0 rows
          (initialState unique) = Inr st1"
    and u: "uniqueLoop cancelAt (length rows + length unique) (uniqueValues st1) st1 = Inr st"
    by blast
  show ?thesis
    unfolding validateDataCells_def Let_def initial_state_eq
    by (simp add: r uniqueLoop_cells_Inr[OF u])
qed












section \<open>Further properties\<close>

text \<open>
  Groups with pairwise distinct keys are independent: the DUPLICATE errors that a run
  reports for one of its groups are the DUPLICATE errors of a run, over the same rows and
  schema, with that group alone.
\<close>

theorem groups_independent:
  assumes "validateData sh cancelAt rows schema unique = Inr st"
    and "validateData sh1 cancelAt1 rows schema [cols] = Inr st1"
    and "distinct (map constraintKey unique)"
    and "cols \<in> set unique"
  shows "\<exists>D D1. errors st = rowPhaseErrors schema rows @ D \<and>
                errors st1 = rowPhaseErrors schema rows @ D1 \<and>
                filter (\<lambda>e. column e = constraintKey cols) D = D1"
proof -
  let ?D = "duplicatePhaseErrors unique rows"
  let ?D1 = "duplicatePhaseErrors [cols] rows"
  have "filter (\<lambda>e. column e = constraintKey cols) ?D1 = ?D1"
    using duplicatePhaseErrors_columns[of _ "[cols]" rows] by (auto simp: filter_id_conv)
  moreover have "filter (\<lambda>e. column e = constraintKey cols) ?D1 = groupDuplicates cols rows"
    by (rule duplicatePhaseErrors_group) simp
  moreover have "filter (\<lambda>e. column e = constraintKey cols) ?D = groupDuplicates cols rows"
    by (rule duplicatePhaseErrors_group[OF filter_key_distinct[OF assms(3,4)]])
  ultimately have "filter (\<lambda>e. column e = constraintKey cols) ?D = ?D1"
    by simp
  with validateData_Inr(1)[OF assms(1)] validateData_Inr(1)[OF assms(2)] show ?thesis
    by blast
qed

theorem groups_independent_witness:
  "\<exists>st st1. validateData idleCells (\<lambda>k. False) idRows [] [[''id''], [''name'']] = Inr st \<and>
            validateData idleCells (\<lambda>k. False) idRows [] [[''id'']] = Inr st1 \<and>
            distinct (map constraintKey [[''id''], [''name'']]) \<and>
            filter (\<lambda>e. column e = constraintKey [''id'']) (errors st) = errors st1"
proof -
  obtain st where st: "validateData idleCells (\<lambda>k. False) idRows [] [[''id''], [''name'']] = Inr st"
    using validateData_returns[where cancelAt = "\<lambda>k. False"] by blast
  obtain st1 where st1: "validateData idleCells (\<lambda>k. False) idRows [] [[''id'']] = Inr st1"
    using validateData_returns[where cancelAt = "\<lambda>k. False"] by blast
  have d: "distinct (map constraintKey [[''id''], [''name'']])"
    by (simp add: constraintKey_def trim_def isWhiteSpace_def)
  from groups_independent[OF st st1 d]
  have "filter (\<lambda>e. column e = constraintKey [''id'']) (errors st) = errors st1"
    by (auto simp: rowPhaseErrors_no_schema)
  with st st1 d show ?thesis by blast
qed

text \<open>
  The end-to-end example of the specification: two rows, the second with a malformed
  email address, give one EMAIL_RULE error for row 3 and the two rows as processed data.
\<close>

theorem email_run_example:
  "\<exists>st. validateData idleCells (\<lambda>k. False)
           [[''email'' \<mapsto> JSString ''x@y.com''], [''email'' \<mapsto> JSString ''bad'']]
           [(''email'', emailRules)] [] = Inr st \<and>
        errors st = [\<lparr>row = 3, column = ''email'', message = ''Invalid email address'',
                       errorType = EMAIL_RULE\<rparr>] \<and>
        map (\<lambda>pr. pr ''email'') (processedData st) =
          [Some (JSString ''x@y.com''), Some (JSString ''bad'')] \<and>
        map dom (processedData st) = [{''email''}, {''email''}]"
proof -
  let ?rows = "[[''email'' \<mapsto> JSString ''x@y.com''], [''email'' \<mapsto> JSString ''bad'']]"
  obtain st where st: "validateData idleCells (\<lambda>k. False) ?rows [(''email'', emailRules)] [] = Inr st"
    using validateData_returns[where cancelAt = "\<lambda>k. False"] by blast
  have e: "errors st = [\<lparr>row = 3, column = ''email'', message = ''Invalid email address'',
                       errorType = EMAIL_RULE\<rparr>]"
    by (simp add: validateData_Inr(1)[OF st] email_example_errors duplicatePhaseErrors_Nil)
  have p: "map (\<lambda>pr. pr ''email'') (processedData st) =
          [Some (JSString ''x@y.com''), Some (JSString ''bad'')]"
    by (simp add: validateData_Inr(2)[OF st] cleanRow_def getProp_def trimValue_examples)
  have d: "map dom (processedData st) = [{''email''}, {''email''}]"
    by (simp add: validateData_Inr(2)[OF st] dom_cleanRow)
  show ?thesis
    by (rule exI[of _ st]) (simp only: st e p d simp_thms)
qed

text \<open>The two email examples of the specification.\<close>

theorem isEmail_spec_examples: "isEmail ''a@b.com'' \<and> \<not> isEmail ''not-an-email''"
  by (simp add: isEmail_def emailPattern_def Plus_def notSpaceOrAt_def isWhiteSpace_def)

text \<open>
  The engine never passes the row to a custom validator: the errors of a cell are those
  obtained from the validator that ignores its second argument.
\<close>

theorem customValidator_row_unused:
  "cellErrors r c (rules\<lparr>customValidator := Some cv\<rparr>) v =
   cellErrors r c (rules\<lparr>customValidator := Some (\<lambda>x rowData. cv x None)\<rparr>) v"
  by (cases v) (simp_all add: cellErrors_def)

text \<open>
  When the custom validator of a column returns an error fragment for a value that is
  present and has passed the required and type checks, the last error pushed for the cell
  is the fragment with the cell's row number and column name written into it; when it
  returns \<^verbatim>\<open>true\<close>, or the value is \<^verbatim>\<open>null\<close> or \<^verbatim>\<open>undefined\<close>, the cell has the
  errors of the same rule without custom validator.
\<close>

theorem customValidator_fragment_merged:
  "(customValidator rules = Some cv \<longrightarrow> \<not> isNullish v \<longrightarrow> cv v None = CustomError frag \<longrightarrow>
      \<not> (required rules \<and> v = JSString []) \<longrightarrow>
      (\<forall>t. cellType rules = Some t \<longrightarrow> typeof v = typeName t) \<longrightarrow>
      cellErrors r c rules v =
        cellErrors r c (rules\<lparr>customValidator := None\<rparr>) v @ [frag\<lparr>row := r, column := c\<rparr>]) \<and>
   (customValidator rules = Some cv \<longrightarrow> isNullish v \<or> cv v None = CustomTrue \<longrightarrow>
      cellErrors r c rules v = cellErrors r c (rules\<lparr>customValidator := None\<rparr>) v)"
  by (cases v; cases "cellType rules"; simp add: cellErrors_def)

theorem customValidator_fragment_merged_witness:
  "customValidator confirmRules = Some matchesConfirm \<and>
   matchesConfirm (JSString ''a'') None = CustomError valuesDiffer \<and>
   cellErrors 5 ''password'' confirmRules (JSString ''a'') =
     [\<lparr>row = 5, column = ''password'', message = ''Values differ'',
       errorType = CUSTOM_VALIDATION\<rparr>] \<and>
   cellErrors 5 ''password'' confirmRules JSNull = []"
proof -
  have a: "customValidator confirmRules = Some matchesConfirm"
    by (simp add: confirmRules_def)
  have b: "matchesConfirm (JSString ''a'') None = CustomError valuesDiffer"
    by (simp add: matchesConfirm_def)
  have n: "cellErrors r c (confirmRules\<lparr>customValidator := None\<rparr>) v = []"
    if "typeof v = ''string'' \<or> isNullish v" for r c v
    using that by (cases v) (auto simp: cellErrors_def confirmRules_def)
  from customValidator_fragment_merged[where rules = confirmRules and cv = matchesConfirm
      and v = "JSString ''a''" and frag = valuesDiffer and r = 5 and c = "''password''"] a b
  have "cellErrors 5 ''password'' confirmRules (JSString ''a'') =
          cellErrors 5 ''password'' (confirmRules\<lparr>customValidator := None\<rparr>) (JSString ''a'')
          @ [valuesDiffer\<lparr>row := 5, column := ''password''\<rparr>]"
    by (simp add: confirmRules_def)
  then have c: "cellErrors 5 ''password'' confirmRules (JSString ''a'') =
     [\<lparr>row = 5, column = ''password'', message = ''Values differ'',
       errorType = CUSTOM_VALIDATION\<rparr>]"
    by (simp add: n valuesDiffer_def)
  from customValidator_fragment_merged[where rules = confirmRules and cv = matchesConfirm
      and v = JSNull and r = 5 and c = "''password''"] a
  have d: "cellErrors 5 ''password'' confirmRules JSNull = []"
    by (simp add: n)
  from a b c d show ?thesis by blast
qed

text \<open>
  The percentage never exceeds 100 while the number of completed steps does not exceed the
  total.
\<close>

theorem progress_percentage_bounded: "k \<le> T \<Longrightarrow> getProgress k T \<le> 100"
proof (cases "0 < T")
  case True
  assume "k \<le> T"
  from getProgress_mono[OF this, of T] getProgress_full[OF True] show ?thesis by simp
next
  case False
  then show ?thesis by (simp add: getProgress_def binary64_exact)
qed

theorem progress_percentage_bounded_witness:
  "(23::nat) \<le> 40 \<and> getProgress 23 40 \<le> 100"
  using progress_percentage_bounded[of 23 40] by simp

text \<open>
  Rounding in doubles is not rounding in exact arithmetic. At 23 steps of 40 the quotient
  0.575 is represented by a double below it, its product with 100 falls below 57.5, and
  the percentage is 57 where exact arithmetic gives 58; likewise 14 for 15 at 29 steps of
  200.
\<close>

theorem progress_percentage_double:
  "getProgress 23 40 = 57 \<and> nat (round ((23 / 40 :: rat) * 100)) = 58 \<and>
   getProgress 29 200 = 14 \<and> nat (round ((29 / 200 :: rat) * 100)) = 15"
  by code_simp

end
